theory Spec2Isabelle
  imports Main "HOL-Library.Sublist"
begin

section \<open>Strings of the Go standard library\<close>

text \<open>
  A Go string is a sequence of bytes, here a \<open>string\<close> (a list of 8-bit characters).
  The protocol package uses \<open>strings.TrimSpace\<close>, \<open>strings.SplitN\<close> with a count of 2,
  \<open>strings.Split\<close> and \<open>strings.Join\<close>, always with a one-byte separator.
\<close>

text \<open>
  \<open>strings.TrimSpace\<close> removes leading and trailing white space as \<open>unicode.IsSpace\<close>
  defines it, decoding the string as UTF-8. The list below holds the UTF-8 encodings of
  the code points of that class: U+0009 to U+000D, U+0020, U+0085, U+00A0, U+1680,
  U+2000 to U+200A, U+2028, U+2029, U+202F, U+205F and U+3000. A byte sequence that is
  not one of these encodings (an invalid byte included) decodes to a rune that is not
  white space and stops the trimming.
\<close>

definition spaceEncodings :: "string list" where
  "spaceEncodings =
    [[CHR 0x09], [CHR 0x0A], [CHR 0x0B], [CHR 0x0C], [CHR 0x0D], [CHR 0x20],
     [CHR 0xC2, CHR 0x85], [CHR 0xC2, CHR 0xA0],
     [CHR 0xE1, CHR 0x9A, CHR 0x80],
     [CHR 0xE2, CHR 0x80, CHR 0x80], [CHR 0xE2, CHR 0x80, CHR 0x81],
     [CHR 0xE2, CHR 0x80, CHR 0x82], [CHR 0xE2, CHR 0x80, CHR 0x83],
     [CHR 0xE2, CHR 0x80, CHR 0x84], [CHR 0xE2, CHR 0x80, CHR 0x85],
     [CHR 0xE2, CHR 0x80, CHR 0x86], [CHR 0xE2, CHR 0x80, CHR 0x87],
     [CHR 0xE2, CHR 0x80, CHR 0x88], [CHR 0xE2, CHR 0x80, CHR 0x89],
     [CHR 0xE2, CHR 0x80, CHR 0x8A],
     [CHR 0xE2, CHR 0x80, CHR 0xA8], [CHR 0xE2, CHR 0x80, CHR 0xA9],
     [CHR 0xE2, CHR 0x80, CHR 0xAF],
     [CHR 0xE2, CHR 0x81, CHR 0x9F],
     [CHR 0xE3, CHR 0x80, CHR 0x80]]"

text \<open>The width of the first of the encodings \<open>es\<close> that \<open>s\<close> starts with, 0 when there is none.\<close>

definition matchWidth :: "string list \<Rightarrow> string \<Rightarrow> nat" where
  "matchWidth es s = (case find (\<lambda>e. prefix e s) es of None \<Rightarrow> 0 | Some e \<Rightarrow> length e)"

text \<open>The loop of \<open>strings.TrimLeftFunc\<close>: drop one encoded rune after the other.\<close>

function stripAll :: "string list \<Rightarrow> string \<Rightarrow> string" where
  "stripAll es s = (if matchWidth es s = 0 then s else stripAll es (drop (matchWidth es s) s))"
  by pat_completeness auto
termination
proof (relation "measure (\<lambda>(es, s). length s)")
  show "wf (measure (\<lambda>(es, s). length s))" by simp
next
  fix es :: "string list" and s :: string
  assume "matchWidth es s \<noteq> 0"
  moreover have "matchWidth es s \<le> length s"
    by (auto simp: matchWidth_def find_Some_iff prefix_def split: option.splits)
  ultimately show "((es, drop (matchWidth es s) s), (es, s)) \<in> measure (\<lambda>(es, s). length s)"
    by simp
qed

declare stripAll.simps [simp del]

definition TrimLeftSpace :: "string \<Rightarrow> string" where
  "TrimLeftSpace s = stripAll spaceEncodings s"

text \<open>
  \<open>strings.TrimRightFunc\<close> decodes the runes from the end of the string: a white-space
  rune is there exactly when one of the encodings is a suffix.
\<close>

definition TrimRightSpace :: "string \<Rightarrow> string" where
  "TrimRightSpace s = rev (stripAll (map rev spaceEncodings) (rev s))"

definition TrimSpace :: "string \<Rightarrow> string" where
  "TrimSpace s = TrimRightSpace (TrimLeftSpace s)"

text \<open>
  \<open>strings.Cut\<close>: the text before and after the first occurrence of the separator.
  \<open>strings.SplitN(s, sep, 2)\<close> is the one-element list \<open>[s]\<close> when the separator does
  not occur, and the two sides of the first occurrence otherwise.
\<close>

definition Cut :: "string \<Rightarrow> char \<Rightarrow> (string \<times> string) option" where
  "Cut s sep =
     (if sep \<in> set s
      then Some (takeWhile (\<lambda>c. c \<noteq> sep) s, tl (dropWhile (\<lambda>c. c \<noteq> sep) s))
      else None)"

definition SplitN2 :: "string \<Rightarrow> char \<Rightarrow> string list" where
  "SplitN2 s sep = (case Cut s sep of None \<Rightarrow> [s] | Some (a, b) \<Rightarrow> [a, b])"

function Split :: "string \<Rightarrow> char \<Rightarrow> string list" where
  "Split s sep = (case Cut s sep of None \<Rightarrow> [s] | Some (a, b) \<Rightarrow> a # Split b sep)"
  by pat_completeness auto
termination
proof (relation "measure (\<lambda>(s, sep). length s)")
  show "wf (measure (\<lambda>(s, sep). length s))" by simp
next
  fix s :: string and sep :: char and x2 :: "string \<times> string" and a b :: string
  assume h: "Cut s sep = Some x2" and x2: "(a, b) = x2"
  then have m: "sep \<in> set s" and b: "b = tl (dropWhile (\<lambda>c. c \<noteq> sep) s)"
    by (auto simp: Cut_def split: if_splits)
  from m have "dropWhile (\<lambda>c. c \<noteq> sep) s \<noteq> []" by simp
  then have "length b < length (dropWhile (\<lambda>c. c \<noteq> sep) s)"
    using b by simp
  also have "\<dots> \<le> length s" by (rule length_dropWhile_le)
  finally show "((b, sep), (s, sep)) \<in> measure (\<lambda>(s, sep). length s)" by simp
qed

declare Split.simps [simp del]

fun Join :: "string list \<Rightarrow> string \<Rightarrow> string" where
  "Join [] sep = []"
| "Join [x] sep = x"
| "Join (x # y # ys) sep = x @ sep @ Join (y # ys) sep"

section \<open>The protocol package\<close>

definition TypePing :: string where "TypePing = ''PING''"
definition TypePong :: string where "TypePong = ''PONG''"
definition TypeContext :: string where "TypeContext = ''CONTEXT''"
definition TypeAck :: string where "TypeAck = ''ACK''"
definition TypeError :: string where "TypeError = ''ERROR''"

record Message =
  Type :: string
  Params :: "string \<rightharpoonup> string"

text \<open>A nil map reads as an empty one, so the nil check of \<open>NewMessage\<close> changes nothing here.\<close>

definition NewMessage :: "string \<Rightarrow> (string \<rightharpoonup> string) \<Rightarrow> Message" where
  "NewMessage msgType params = \<lparr>Type = msgType, Params = params\<rparr>"

text \<open>The errors of \<open>Parse\<close>, one constructor for each \<open>fmt.Errorf\<close> of the source.\<close>

datatype ParseError =
    EmptyMessage
  | MissingTypeSeparator
  | MissingMessageType
  | InvalidParameterFormat string
  | EmptyParameterKey

text \<open>The body of the loop over \<open>paramPairs\<close>, with its two early returns.\<close>

fun parsePairs :: "string list \<Rightarrow> (string \<rightharpoonup> string) \<Rightarrow> ParseError + (string \<rightharpoonup> string)" where
  "parsePairs [] params = Inr params"
| "parsePairs (pair # rest) params =
     (let kv = SplitN2 pair (CHR ''='') in
      if length kv \<noteq> 2 then Inl (InvalidParameterFormat pair)
      else
        let key = TrimSpace (kv ! 0); value = TrimSpace (kv ! 1) in
        if key = [] then Inl EmptyParameterKey
        else parsePairs rest (params(key \<mapsto> value)))"

definition Parse :: "string \<Rightarrow> ParseError + Message" where
  "Parse raw0 =
     (let raw = TrimSpace raw0 in
      if raw = [] then Inl EmptyMessage
      else
        let parts = SplitN2 raw (CHR '':'') in
        if length parts \<noteq> 2 then Inl MissingTypeSeparator
        else
          let msgType = TrimSpace (parts ! 0) in
          if msgType = [] then Inl MissingMessageType
          else if parts ! 1 \<noteq> [] then
            (case parsePairs (Split (parts ! 1) (CHR '';'')) Map.empty of
               Inl e \<Rightarrow> Inl e
             | Inr params \<Rightarrow> Inr \<lparr>Type = msgType, Params = params\<rparr>)
          else Inr \<lparr>Type = msgType, Params = Map.empty\<rparr>)"

text \<open>
  \<open>Format\<close> ranges over the map \<open>m.Params\<close>, and Go leaves the order of that iteration
  open. The order is the argument \<open>ks\<close>: any list that holds every key of the map once.
\<close>

definition rangeOrder :: "('k \<rightharpoonup> 'v) \<Rightarrow> 'k list \<Rightarrow> bool" where
  "rangeOrder m ks \<longleftrightarrow> distinct ks \<and> set ks = dom m"

definition Format :: "string list \<Rightarrow> Message \<Rightarrow> string" where
  "Format ks m =
     (let params = map (\<lambda>key. key @ ''='' @ the (Params m key)) ks;
          paramStr = Join params '';''
      in Type m @ '':'' @ paramStr)"

definition ValidateMessageType :: "string \<Rightarrow> bool" where
  "ValidateMessageType msgType =
     (let validTypes = [TypePing \<mapsto> True, TypePong \<mapsto> True, TypeContext \<mapsto> True,
                        TypeAck \<mapsto> True, TypeError \<mapsto> True]
      in case validTypes msgType of None \<Rightarrow> False | Some _ \<Rightarrow> True)"

section \<open>The context store\<close>

text \<open>
  The store maps a client identifier to a pointer to that client's context. A context is
  created inside \<open>Set\<close> or \<open>SetMultiple\<close> and its pointer is never handed out, so no two
  clients share one: the store is a map of maps. Every method holds the store's lock from
  its first statement to its return, so a method is one step on the store.
\<close>

record ClientContext =
  Values :: "string \<rightharpoonup> string"

record ContextStore =
  contexts :: "string \<rightharpoonup> ClientContext"

definition NewContextStore :: ContextStore where
  "NewContextStore = \<lparr>contexts = Map.empty\<rparr>"

definition Get :: "ContextStore \<Rightarrow> string \<Rightarrow> string \<Rightarrow> string \<times> bool" where
  "Get s clientID key =
     (case contexts s clientID of
        None \<Rightarrow> ([], False)
      | Some client \<Rightarrow>
          (case Values client key of None \<Rightarrow> ([], False) | Some val \<Rightarrow> (val, True)))"

definition GetAll :: "ContextStore \<Rightarrow> string \<Rightarrow> (string \<rightharpoonup> string) \<times> bool" where
  "GetAll s clientID =
     (case contexts s clientID of
        None \<Rightarrow> (Map.empty, False)
      | Some client \<Rightarrow> (Values client, True))"

text \<open>The context of a client, made empty when the client has none yet.\<close>

definition clientOrNew :: "ContextStore \<Rightarrow> string \<Rightarrow> ClientContext" where
  "clientOrNew s clientID =
     (case contexts s clientID of
        None \<Rightarrow> \<lparr>Values = Map.empty\<rparr>
      | Some client \<Rightarrow> client)"

definition Set :: "ContextStore \<Rightarrow> string \<Rightarrow> string \<Rightarrow> string \<Rightarrow> ContextStore" where
  "Set s clientID key value =
     (let client = clientOrNew s clientID
      in s\<lparr>contexts := (contexts s)(clientID \<mapsto>
              client\<lparr>Values := (Values client)(key \<mapsto> value)\<rparr>)\<rparr>)"

text \<open>The loop of \<open>SetMultiple\<close> over the map \<open>values\<close>, in the order \<open>ks\<close> of its keys.\<close>

fun setEach :: "string list \<Rightarrow> (string \<rightharpoonup> string) \<Rightarrow> (string \<rightharpoonup> string) \<Rightarrow> (string \<rightharpoonup> string)" where
  "setEach [] values vals = vals"
| "setEach (k # ks) values vals = setEach ks values (vals(k \<mapsto> the (values k)))"

definition SetMultiple :: "string list \<Rightarrow> ContextStore \<Rightarrow> string \<Rightarrow> (string \<rightharpoonup> string) \<Rightarrow> ContextStore" where
  "SetMultiple ks s clientID values =
     (let client = clientOrNew s clientID
      in s\<lparr>contexts := (contexts s)(clientID \<mapsto>
              client\<lparr>Values := setEach ks values (Values client)\<rparr>)\<rparr>)"

definition Remove :: "ContextStore \<Rightarrow> string \<Rightarrow> string \<Rightarrow> ContextStore" where
  "Remove s clientID key =
     (case contexts s clientID of
        None \<Rightarrow> s
      | Some client \<Rightarrow>
          s\<lparr>contexts := (contexts s)(clientID \<mapsto>
              client\<lparr>Values := (Values client)(key := None)\<rparr>)\<rparr>)"

definition Clear :: "ContextStore \<Rightarrow> string \<Rightarrow> ContextStore" where
  "Clear s clientID = s\<lparr>contexts := (contexts s)(clientID := None)\<rparr>"

text \<open>
  \<open>ListClients\<close> and \<open>QueryClients\<close> range over the map \<open>s.contexts\<close>; \<open>ids\<close> is the
  order in which the iteration visits the client identifiers.
\<close>

definition ListClients :: "string list \<Rightarrow> ContextStore \<Rightarrow> string list" where
  "ListClients ids s = fold (\<lambda>id clients. clients @ [id]) ids []"

definition matchesClient :: "ContextStore \<Rightarrow> string \<Rightarrow> string \<Rightarrow> string \<Rightarrow> bool" where
  "matchesClient s key value clientID =
     (case contexts s clientID of
        None \<Rightarrow> False
      | Some ctx \<Rightarrow> (case Values ctx key of None \<Rightarrow> False | Some v \<Rightarrow> v = value))"

fun queryLoop :: "ContextStore \<Rightarrow> string \<Rightarrow> string \<Rightarrow> string list \<Rightarrow> string list \<Rightarrow> string list" where
  "queryLoop s key value [] matches = matches"
| "queryLoop s key value (clientID # ids) matches =
     queryLoop s key value ids
       (if matchesClient s key value clientID then matches @ [clientID] else matches)"

definition QueryClients :: "string list \<Rightarrow> ContextStore \<Rightarrow> string \<Rightarrow> string \<Rightarrow> string list" where
  "QueryClients ids s key value = queryLoop s key value ids []"

section \<open>The connection handler\<close>

text \<open>
  Of a connection the model keeps its identifier, the byte strings written to its socket
  (one entry for each call of \<open>conn.Write\<close>, in order) and the store it points to. The
  logger is left out. \<open>time.Now().Unix()\<close> is the argument \<open>now\<close>.
\<close>

record Connection =
  connID :: string
  conn :: "string list"
  store :: ContextStore

text \<open>\<open>fmt.Sprintf("%d", n)\<close>: the decimal digits of an integer, with a sign when negative.\<close>

fun digits :: "nat \<Rightarrow> string" where
  "digits n =
     (if n < 10 then [''0123456789'' ! n]
      else digits (n div 10) @ [''0123456789'' ! (n mod 10)])"

declare digits.simps [simp del]

definition FormatInt :: "int \<Rightarrow> string" where
  "FormatInt n = (if n < 0 then CHR ''-'' # digits (nat (- n)) else digits (nat n))"

definition Send :: "string list \<Rightarrow> Connection \<Rightarrow> Message \<Rightarrow> Connection" where
  "Send ks c msg =
     (let formatted = Format ks msg
      in c\<lparr>conn := conn c @ [formatted @ [CHR 0x0A]]\<rparr>)"

text \<open>A map with one key has one order of iteration.\<close>

definition handlePing :: "int \<Rightarrow> Connection \<Rightarrow> Message \<Rightarrow> Connection" where
  "handlePing now c msg =
     (let response = NewMessage TypePong [''time'' \<mapsto> FormatInt now]
      in Send [''time''] c response)"

text \<open>The loop of \<open>handleContextUpdate\<close> over \<open>msg.Params\<close>, in the order \<open>ks\<close> of its keys.\<close>

fun storeEach :: "string list \<Rightarrow> Message \<Rightarrow> string \<Rightarrow> ContextStore \<Rightarrow> ContextStore" where
  "storeEach [] msg cid s = s"
| "storeEach (key # ks) msg cid s = storeEach ks msg cid (Set s cid key (the (Params msg key)))"

definition handleContextUpdate :: "string list \<Rightarrow> Connection \<Rightarrow> Message \<Rightarrow> Connection" where
  "handleContextUpdate ks c msg =
     (let c' = c\<lparr>store := storeEach ks msg (connID c) (store c)\<rparr>;
          response = NewMessage TypeAck [''status'' \<mapsto> ''ok'']
      in Send [''status''] c' response)"

definition handleMessage :: "int \<Rightarrow> string list \<Rightarrow> Connection \<Rightarrow> Message \<Rightarrow> Connection" where
  "handleMessage now ks c msg =
     (if Type msg = TypePing then handlePing now c msg
      else if Type msg = TypeContext then handleContextUpdate ks c msg
      else c)"

section \<open>Goroutines calling the store\<close>

text \<open>
  Every method of the store starts with \<open>s.mu.Lock()\<close> or \<open>s.mu.RLock()\<close> and defers the
  matching unlock to its return. To speak of what one goroutine sees while another is
  inside a method, the methods are split into their statements, and goroutines take
  turns, one statement at a time. \<open>sync.RWMutex\<close>: \<open>Lock\<close> returns only when no goroutine
  holds the mutex; \<open>RLock\<close> returns only when no goroutine holds it for writing.
\<close>

datatype StoreCall =
    CallGet string string
  | CallGetAll string
  | CallSet string string string
  | CallSetMultiple string "string \<rightharpoonup> string" "string list"
  | CallRemove string string
  | CallClear string
  | CallListClients
  | CallQueryClients string string

text \<open>The methods that take the mutex with \<open>Lock\<close>; the others take it with \<open>RLock\<close>.\<close>

fun takesLock :: "StoreCall \<Rightarrow> bool" where
  "takesLock (CallSet clientID key value) = True"
| "takesLock (CallSetMultiple clientID values ks) = True"
| "takesLock (CallRemove clientID key) = True"
| "takesLock (CallClear clientID) = True"
| "takesLock call = False"

text \<open>
  The statements of \<open>Set\<close> and \<open>SetMultiple\<close> that write to the store: the creation of the
  client's context when there is none, and the assignment \<open>client.Values[key] = value\<close>.
  \<open>client\<close> points to the context that the map holds for \<open>clientID\<close>: the method has
  looked it up or created it under the lock that it still holds, so the assignment is
  written as a change of the map's entry.
\<close>

definition ensureClient :: "string \<Rightarrow> ContextStore \<Rightarrow> ContextStore" where
  "ensureClient clientID s =
     (case contexts s clientID of
        None \<Rightarrow> s\<lparr>contexts := (contexts s)(clientID \<mapsto> \<lparr>Values = Map.empty\<rparr>)\<rparr>
      | Some client \<Rightarrow> s)"

definition assignValue :: "string \<Rightarrow> string \<Rightarrow> string \<Rightarrow> ContextStore \<Rightarrow> ContextStore" where
  "assignValue clientID key value s =
     (case contexts s clientID of
        None \<Rightarrow> s
      | Some client \<Rightarrow>
          s\<lparr>contexts := (contexts s)(clientID \<mapsto>
              client\<lparr>Values := (Values client)(key \<mapsto> value)\<rparr>)\<rparr>)"

text \<open>
  The writing statements of a call, in the order in which the method runs them. For
  \<open>SetMultiple\<close> it is one assignment for each key, in the order \<open>ks\<close> of the iteration.
\<close>

fun statements :: "StoreCall \<Rightarrow> (ContextStore \<Rightarrow> ContextStore) list" where
  "statements (CallSet clientID key value) =
     [ensureClient clientID, assignValue clientID key value]"
| "statements (CallSetMultiple clientID values ks) =
     ensureClient clientID # map (\<lambda>k. assignValue clientID k (the (values k))) ks"
| "statements (CallRemove clientID key) = [\<lambda>s. Remove s clientID key]"
| "statements (CallClear clientID) = [\<lambda>s. Clear s clientID]"
| "statements call = []"

text \<open>A call as one step: the method as defined above, run from start to end alone.\<close>

fun applyCall :: "StoreCall \<Rightarrow> ContextStore \<Rightarrow> ContextStore" where
  "applyCall (CallSet clientID key value) s = Set s clientID key value"
| "applyCall (CallSetMultiple clientID values ks) s = SetMultiple ks s clientID values"
| "applyCall (CallRemove clientID key) s = Remove s clientID key"
| "applyCall (CallClear clientID) s = Clear s clientID"
| "applyCall call s = s"

fun validCall :: "StoreCall \<Rightarrow> bool" where
  "validCall (CallSetMultiple clientID values ks) = rangeOrder values ks"
| "validCall call = True"

text \<open>
  A goroutine is outside the store, or waits for the mutex, or holds it for writing and
  has run the first \<open>n\<close> statements of its call, or holds it for reading and has read the
  store in the states \<open>seen\<close>.
\<close>

datatype Goroutine =
    Idle
  | Blocked StoreCall
  | Writing StoreCall nat
  | Reading StoreCall "ContextStore list"

record System =
  shared :: ContextStore
  writer :: "nat option"
  readers :: "nat set"
  goroutines :: "nat \<Rightarrow> Goroutine"
  finished :: "StoreCall list"

definition startSystem :: "ContextStore \<Rightarrow> System" where
  "startSystem s0 =
     \<lparr>shared = s0, writer = None, readers = {}, goroutines = (\<lambda>t. Idle), finished = []\<rparr>"

definition doCall :: "nat \<Rightarrow> StoreCall \<Rightarrow> System \<Rightarrow> System" where
  "doCall t call c = c\<lparr>goroutines := (goroutines c)(t := Blocked call)\<rparr>"

definition doLock :: "nat \<Rightarrow> StoreCall \<Rightarrow> System \<Rightarrow> System" where
  "doLock t call c = c\<lparr>writer := Some t, goroutines := (goroutines c)(t := Writing call 0)\<rparr>"

definition doRLock :: "nat \<Rightarrow> StoreCall \<Rightarrow> System \<Rightarrow> System" where
  "doRLock t call c =
     c\<lparr>readers := insert t (readers c), goroutines := (goroutines c)(t := Reading call [])\<rparr>"

definition doStatement :: "nat \<Rightarrow> StoreCall \<Rightarrow> nat \<Rightarrow> System \<Rightarrow> System" where
  "doStatement t call n c =
     c\<lparr>shared := (statements call ! n) (shared c),
       goroutines := (goroutines c)(t := Writing call (Suc n))\<rparr>"

definition doUnlock :: "nat \<Rightarrow> StoreCall \<Rightarrow> System \<Rightarrow> System" where
  "doUnlock t call c =
     c\<lparr>writer := None, goroutines := (goroutines c)(t := Idle),
       finished := finished c @ [call]\<rparr>"

definition doRead :: "nat \<Rightarrow> StoreCall \<Rightarrow> ContextStore list \<Rightarrow> System \<Rightarrow> System" where
  "doRead t call seen c =
     c\<lparr>goroutines := (goroutines c)(t := Reading call (seen @ [shared c]))\<rparr>"

definition doRUnlock :: "nat \<Rightarrow> System \<Rightarrow> System" where
  "doRUnlock t c = c\<lparr>readers := readers c - {t}, goroutines := (goroutines c)(t := Idle)\<rparr>"

inductive step :: "System \<Rightarrow> System \<Rightarrow> bool" where
  Call: "goroutines c t = Idle \<Longrightarrow> validCall call \<Longrightarrow> step c (doCall t call c)"
| Lock: "goroutines c t = Blocked call \<Longrightarrow> takesLock call \<Longrightarrow> writer c = None \<Longrightarrow>
         readers c = {} \<Longrightarrow> step c (doLock t call c)"
| RLock: "goroutines c t = Blocked call \<Longrightarrow> \<not> takesLock call \<Longrightarrow> writer c = None \<Longrightarrow>
         step c (doRLock t call c)"
| Statement: "goroutines c t = Writing call n \<Longrightarrow> n < length (statements call) \<Longrightarrow>
         step c (doStatement t call n c)"
| Unlock: "goroutines c t = Writing call n \<Longrightarrow> n = length (statements call) \<Longrightarrow>
         step c (doUnlock t call c)"
| Read: "goroutines c t = Reading call seen \<Longrightarrow> step c (doRead t call seen c)"
| RUnlock: "goroutines c t = Reading call seen \<Longrightarrow> step c (doRUnlock t c)"

inductive reach :: "ContextStore \<Rightarrow> System \<Rightarrow> bool" where
  Start: "reach s0 (startSystem s0)"
| Step: "reach s0 c \<Longrightarrow> step c c' \<Longrightarrow> reach s0 c'"

text \<open>The store after the writing calls that have returned, each applied as one step.\<close>

definition committed :: "ContextStore \<Rightarrow> System \<Rightarrow> ContextStore" where
  "committed s0 c = fold applyCall (finished c) s0"

definition lockInvariant :: "ContextStore \<Rightarrow> System \<Rightarrow> bool" where
  "lockInvariant s0 c \<longleftrightarrow>
     (\<forall>t. writer c = Some t \<longleftrightarrow> (\<exists>call n. goroutines c t = Writing call n))
     \<and> (\<forall>t. t \<in> readers c \<longleftrightarrow> (\<exists>call seen. goroutines c t = Reading call seen))
     \<and> (writer c \<noteq> None \<longrightarrow> readers c = {})
     \<and> (\<forall>t call n. goroutines c t = Writing call n \<longrightarrow>
           n \<le> length (statements call)
           \<and> shared c = fold (\<lambda>f s. f s) (take n (statements call)) (committed s0 c))
     \<and> (writer c = None \<longrightarrow> shared c = committed s0 c)
     \<and> (\<forall>t call seen. goroutines c t = Reading call seen \<longrightarrow>
           (\<forall>s \<in> set seen. s = committed s0 c))"

text \<open>
  A run of two goroutines: goroutine 0 calls \<open>SetMultiple\<close> for client \<open>A\<close> with two pairs,
  goroutine 1 calls \<open>GetAll\<close>; goroutine 0 takes the mutex, runs its three statements and
  returns; then goroutine 1 takes the mutex for reading and reads the store.
\<close>

definition exampleCall :: StoreCall where
  "exampleCall = CallSetMultiple ''A'' [''x'' \<mapsto> ''1'', ''y'' \<mapsto> ''2''] [''x'', ''y'']"

definition exampleRun :: System where
  "exampleRun =
     doRead 1 (CallGetAll ''A'') []
      (doRLock 1 (CallGetAll ''A'')
        (doUnlock 0 exampleCall
          (doStatement 0 exampleCall 2
            (doStatement 0 exampleCall 1
              (doStatement 0 exampleCall 0
                (doLock 0 exampleCall
                  (doCall 1 (CallGetAll ''A'')
                    (doCall 0 exampleCall (startSystem NewContextStore)))))))))"

section \<open>Parts of a line\<close>

text \<open>
  The parts of a trimmed line \<open>TYPE:key=value;key=value\<close> that the statements below
  speak of: the type portion before the first \<open>:\<close> and the parameter text after it; of a
  pair, the key text before its first \<open>=\<close> and the value text after it.
\<close>

definition typePortion :: "string \<Rightarrow> string" where
  "typePortion r = takeWhile (\<lambda>c. c \<noteq> CHR '':'') r"

definition paramText :: "string \<Rightarrow> string" where
  "paramText r = tl (dropWhile (\<lambda>c. c \<noteq> CHR '':'') r)"

definition keyText :: "string \<Rightarrow> string" where
  "keyText pair = takeWhile (\<lambda>c. c \<noteq> CHR ''='') pair"

definition valueText :: "string \<Rightarrow> string" where
  "valueText pair = tl (dropWhile (\<lambda>c. c \<noteq> CHR ''='') pair)"

definition pairTexts :: "string \<Rightarrow> string list" where
  "pairTexts r = (if paramText r = [] then [] else Split (paramText r) (CHR '';''))"

text \<open>
  What Parse makes of a pair that it accepts, and the pairs that it rejects: a pair with no
  \<open>=\<close>, or with a key that is empty once trimmed.
\<close>

definition parsedPair :: "string \<Rightarrow> string \<times> string" where
  "parsedPair pair = (TrimSpace (keyText pair), TrimSpace (valueText pair))"

definition badPair :: "string \<Rightarrow> bool" where
  "badPair pair \<longleftrightarrow> CHR ''='' \<notin> set pair \<or> TrimSpace (keyText pair) = []"

text \<open>
  The lines that Parse rejects. \<open>malformedLine\<close> speaks of a trimmed line, \<open>malformed\<close>
  of a raw one. The variant \<open>AsStated\<close> follows the wording of the specification, which
  takes the key as it stands in the line, before any trimming.
\<close>

definition malformedLine :: "string \<Rightarrow> bool" where
  "malformedLine r \<longleftrightarrow>
     r = [] \<or> CHR '':'' \<notin> set r \<or> TrimSpace (typePortion r) = []
     \<or> (\<exists>pair \<in> set (pairTexts r). badPair pair)"

definition malformed :: "string \<Rightarrow> bool" where
  "malformed raw \<longleftrightarrow> malformedLine (TrimSpace raw)"

definition malformedLineAsStated :: "string \<Rightarrow> bool" where
  "malformedLineAsStated r \<longleftrightarrow>
     r = [] \<or> CHR '':'' \<notin> set r \<or> TrimSpace (typePortion r) = []
     \<or> (\<exists>pair \<in> set (pairTexts r). CHR ''='' \<notin> set pair \<or> keyText pair = [])"

definition malformedAsStated :: "string \<Rightarrow> bool" where
  "malformedAsStated raw \<longleftrightarrow> malformedLineAsStated (TrimSpace raw)"

text \<open>The three separator characters of the protocol.\<close>

definition separators :: "char set" where
  "separators = {CHR '':'', CHR '';'', CHR ''=''}"

section \<open>Trimming, cutting and joining\<close>

lemma matchWidth_le: "matchWidth es s \<le> length s"
  by (auto simp: matchWidth_def find_Some_iff prefix_def split: option.splits)

lemma stripAll_length: "length (stripAll es s) \<le> length s"
proof (induction es s rule: stripAll.induct)
  case (1 es s)
  show ?case
  proof (cases "matchWidth es s = 0")
    case True
    then show ?thesis by (simp add: stripAll.simps)
  next
    case False
    with 1 have "length (stripAll es (drop (matchWidth es s) s)) \<le> length (drop (matchWidth es s) s)"
      by simp
    with False show ?thesis by (subst stripAll.simps) simp
  qed
qed

lemma stripAll_fixed: "stripAll es s = s \<longleftrightarrow> matchWidth es s = 0"
proof
  assume h: "stripAll es s = s"
  show "matchWidth es s = 0"
  proof (rule ccontr)
    assume n: "matchWidth es s \<noteq> 0"
    then have "stripAll es s = stripAll es (drop (matchWidth es s) s)"
      by (subst stripAll.simps) simp
    then have "length (stripAll es s) \<le> length (drop (matchWidth es s) s)"
      using stripAll_length [of es "drop (matchWidth es s) s"] by simp
    moreover have "matchWidth es s \<le> length s" by (rule matchWidth_le)
    ultimately have "length (stripAll es s) < length s" using n by simp
    with h show False by simp
  qed
next
  assume "matchWidth es s = 0"
  then show "stripAll es s = s" by (subst stripAll.simps) simp
qed

lemma prefix_sep:
  assumes "c \<notin> set e"
  shows "prefix e (t @ c # r) \<longleftrightarrow> prefix e t"
proof
  assume "prefix e (t @ c # r)"
  then have "prefix e t \<or> (\<exists>us. e = t @ us \<and> prefix us (c # r) \<and> us \<noteq> [])"
    by (auto simp: prefix_append)
  then show "prefix e t"
  proof
    assume "\<exists>us. e = t @ us \<and> prefix us (c # r) \<and> us \<noteq> []"
    then obtain us where "e = t @ us" "prefix us (c # r)" "us \<noteq> []" by blast
    then have "c \<in> set e" by (cases us) (auto simp: prefix_Cons)
    with assms show ?thesis by simp
  qed simp
next
  assume "prefix e t" then show "prefix e (t @ c # r)" by (simp add: prefix_prefix)
qed

lemma matchWidth_sep:
  assumes "\<forall>e \<in> set es. c \<notin> set e"
  shows "matchWidth es (t @ c # r) = matchWidth es t"
proof -
  have "find (\<lambda>e. prefix e (t @ c # r)) es = find (\<lambda>e. prefix e t) es"
    using assms by (intro find_cong) (auto simp: prefix_sep)
  then show ?thesis by (simp add: matchWidth_def)
qed

lemma stripAll_sep:
  assumes "\<forall>e \<in> set es. c \<notin> set e"
  shows "stripAll es (t @ c # r) = stripAll es t @ c # r"
  using assms
proof (induction es t rule: stripAll.induct)
  case (1 es t)
  have w: "matchWidth es (t @ c # r) = matchWidth es t"
    using "1.prems" by (rule matchWidth_sep)
  show ?case
  proof (cases "matchWidth es t = 0")
    case True
    with w show ?thesis by (simp add: stripAll.simps)
  next
    case False
    have le: "matchWidth es t \<le> length t" by (rule matchWidth_le)
    have "stripAll es (t @ c # r) = stripAll es (drop (matchWidth es t) (t @ c # r))"
      using False w by (subst stripAll.simps) simp
    also have "\<dots> = stripAll es (drop (matchWidth es t) t @ c # r)"
      using le by simp
    also have "\<dots> = stripAll es (drop (matchWidth es t) t) @ c # r"
      using "1.IH" [OF False "1.prems"] .
    also have "stripAll es (drop (matchWidth es t) t) = stripAll es t"
      using False by (subst (2) stripAll.simps) simp
    finally show ?thesis .
  qed
qed

lemma stripAll_idem: "stripAll es (stripAll es s) = stripAll es s"
proof (induction es s rule: stripAll.induct)
  case (1 es s)
  show ?case
  proof (cases "matchWidth es s = 0")
    case True
    then show ?thesis by (simp add: stripAll.simps)
  next
    case False
    then have "stripAll es s = stripAll es (drop (matchWidth es s) s)"
      by (subst stripAll.simps) simp
    with 1 False show ?thesis by simp
  qed
qed

lemma spaceEncodings_no_sep:
  "c \<in> {CHR '':'', CHR '';'', CHR ''=''} \<Longrightarrow> \<forall>e \<in> set spaceEncodings. c \<notin> set e"
  by (auto simp: spaceEncodings_def)

lemma TrimLeftSpace_sep:
  "c \<in> {CHR '':'', CHR '';'', CHR ''=''} \<Longrightarrow> TrimLeftSpace (t @ c # r) = TrimLeftSpace t @ c # r"
  unfolding TrimLeftSpace_def by (rule stripAll_sep) (rule spaceEncodings_no_sep)

lemma TrimRightSpace_sep:
  assumes "c \<in> {CHR '':'', CHR '';'', CHR ''=''}"
  shows "TrimRightSpace (t @ c # r) = t @ c # TrimRightSpace r"
proof -
  have "\<forall>e \<in> set (map rev spaceEncodings). c \<notin> set e"
    using spaceEncodings_no_sep [OF assms] by simp
  then have "stripAll (map rev spaceEncodings) (rev r @ c # rev t)
      = stripAll (map rev spaceEncodings) (rev r) @ c # rev t"
    by (rule stripAll_sep)
  then show ?thesis by (simp add: TrimRightSpace_def)
qed

lemma TrimLeftSpace_length: "length (TrimLeftSpace s) \<le> length s"
  by (simp add: TrimLeftSpace_def stripAll_length)

lemma TrimRightSpace_length: "length (TrimRightSpace s) \<le> length s"
  using stripAll_length [of "map rev spaceEncodings" "rev s"] by (simp add: TrimRightSpace_def)

lemma stripAll_suffix: "\<exists>p. s = p @ stripAll es s"
proof (induction es s rule: stripAll.induct)
  case (1 es s)
  show ?case
  proof (cases "matchWidth es s = 0")
    case True
    then show ?thesis by (simp add: stripAll.simps)
  next
    case False
    with 1 obtain p where p: "drop (matchWidth es s) s = p @ stripAll es (drop (matchWidth es s) s)"
      by blast
    have "stripAll es s = stripAll es (drop (matchWidth es s) s)"
      using False by (subst stripAll.simps) simp
    with p have "s = (take (matchWidth es s) s @ p) @ stripAll es s"
      by (metis append_assoc append_take_drop_id)
    then show ?thesis by blast
  qed
qed

lemma TrimSpace_fixedD:
  assumes "TrimSpace s = s"
  shows "TrimLeftSpace s = s" and "TrimRightSpace s = s"
proof -
  obtain p where p: "s = p @ TrimLeftSpace s"
    using stripAll_suffix [of s spaceEncodings] by (auto simp: TrimLeftSpace_def)
  have "length s = length (TrimRightSpace (TrimLeftSpace s))"
    using assms by (simp add: TrimSpace_def)
  also have "\<dots> \<le> length (TrimLeftSpace s)" by (rule TrimRightSpace_length)
  finally have "length p = 0" using p
    by (metis add_le_same_cancel2 le_zero_eq length_append)
  with p show l: "TrimLeftSpace s = s" by simp
  with assms show "TrimRightSpace s = s" by (simp add: TrimSpace_def)
qed

lemma Cut_None: "sep \<notin> set s \<Longrightarrow> Cut s sep = None"
  by (simp add: Cut_def)

lemma Cut_append: "sep \<notin> set a \<Longrightarrow> Cut (a @ sep # b) sep = Some (a, b)"
  by (induction a) (auto simp: Cut_def)

lemma SplitN2_None: "sep \<notin> set s \<Longrightarrow> SplitN2 s sep = [s]"
  by (simp add: SplitN2_def Cut_None)

lemma SplitN2_append: "sep \<notin> set a \<Longrightarrow> SplitN2 (a @ sep # b) sep = [a, b]"
  by (simp add: SplitN2_def Cut_append)

lemma Split_None: "sep \<notin> set s \<Longrightarrow> Split s sep = [s]"
  by (subst Split.simps) (simp add: Cut_None)

lemma Split_append: "sep \<notin> set a \<Longrightarrow> Split (a @ sep # b) sep = a # Split b sep"
  by (subst Split.simps) (simp add: Cut_append)

lemma Split_Join:
  "xs \<noteq> [] \<Longrightarrow> \<forall>x \<in> set xs. sep \<notin> set x \<Longrightarrow> Split (Join xs [sep]) sep = xs"
proof (induction xs "[sep]" rule: Join.induct)
  case 1
  then show ?case by simp
next
  case (2 x)
  then show ?case by (simp add: Split_None)
next
  case (3 x y ys)
  then show ?case by (simp add: Split_append)
qed

lemma Join_snoc: "Join (xs @ [x]) sep = (if xs = [] then x else Join xs sep @ sep @ x)"
  by (induction xs sep rule: Join.induct) auto

lemma stripAll_Nil: "stripAll es [] = []"
  using stripAll_length [of es "[]"] by simp

lemma TrimRightSpace_Nil: "TrimRightSpace [] = []"
  by (simp add: TrimRightSpace_def stripAll_Nil)

lemma TrimLeftSpace_Nil: "TrimLeftSpace [] = []"
  by (simp add: TrimLeftSpace_def stripAll_Nil)

lemma TrimSpace_Nil: "TrimSpace [] = []"
  by (simp add: TrimSpace_def TrimRightSpace_Nil TrimLeftSpace_Nil)

lemma TrimRightSpace_params:
  assumes "\<forall>key \<in> set ks. TrimSpace (the (m key)) = the (m key)"
  shows "TrimRightSpace (Join (map (\<lambda>key. key @ CHR ''='' # the (m key)) ks) '';'')
         = Join (map (\<lambda>key. key @ CHR ''='' # the (m key)) ks) '';''"
proof (cases ks rule: rev_cases)
  case Nil
  then show ?thesis by (simp add: TrimRightSpace_Nil)
next
  case (snoc ks' k)
  let ?f = "\<lambda>key. key @ CHR ''='' # the (m key)"
  have v: "TrimRightSpace (the (m k)) = the (m k)"
    using assms snoc by (auto intro: TrimSpace_fixedD)
  have "\<exists>p. Join (map ?f ks) '';'' = p @ CHR ''='' # the (m k)"
  proof (cases "ks' = []")
    case True
    with snoc show ?thesis by simp
  next
    case False
    have "Join (map ?f ks) '';'' = (Join (map ?f ks') '';'' @ '';'' @ k) @ CHR ''='' # the (m k)"
      using snoc False by (simp add: Join_snoc)
    then show ?thesis by blast
  qed
  then obtain p where p: "Join (map ?f ks) '';'' = p @ CHR ''='' # the (m k)" by blast
  show ?thesis unfolding p by (simp add: TrimRightSpace_sep v)
qed

lemma parsePairs_formatted:
  assumes "\<forall>key \<in> set ks. key \<noteq> [] \<and> CHR ''='' \<notin> set key \<and> TrimSpace key = key
             \<and> TrimSpace (the (m key)) = the (m key)"
    and "set ks \<subseteq> dom m"
  shows "parsePairs (map (\<lambda>key. key @ CHR ''='' # the (m key)) ks) acc
         = Inr (acc ++ (m |` set ks))"
  using assms
proof (induction ks arbitrary: acc)
  case Nil
  then show ?case by simp
next
  case (Cons k ks)
  then obtain v where v: "m k = Some v" by auto
  have sp: "SplitN2 (k @ CHR ''='' # v) (CHR ''='') = [k, v]"
    using Cons.prems by (simp add: SplitN2_append)
  have tr: "TrimSpace k = k" "TrimSpace v = v" "k \<noteq> []"
    using Cons.prems v by auto
  have m: "acc(k \<mapsto> v) ++ m |` set ks = acc ++ m |` insert k (set ks)"
    by (rule ext) (auto simp: map_add_def restrict_map_def v split: option.splits)
  have "parsePairs (map (\<lambda>key. key @ CHR ''='' # the (m key)) ks) (acc(k \<mapsto> v))
        = Inr (acc(k \<mapsto> v) ++ (m |` set ks))"
    using Cons.prems by (intro Cons.IH) auto
  then show ?case using sp tr m v by simp
qed

lemmas parse_eval =
  Parse_def TrimSpace_def TrimLeftSpace_def TrimRightSpace_def stripAll.simps
  matchWidth_def spaceEncodings_def SplitN2_def Cut_def Split.simps

section \<open>The round trip through Format and Parse\<close>

text \<open>
  C1 (as amended). Let \<open>m\<close> be a Message whose type tag is not empty, holds no \<open>:\<close> and
  has no white space at either end, whose keys are not empty, and whose keys and values
  hold none of \<open>:\<close>, \<open>;\<close>, \<open>=\<close> and have no white space at either end. Then, in whatever
  order \<open>Format\<close> visits the parameters, \<open>Parse (Format m)\<close> succeeds and gives back \<open>m\<close>:
  the same type tag and the same pairs.
\<close>

theorem Parse_Format_roundtrip:
  assumes ord: "rangeOrder (Params m) ks"
    and ty: "Type m \<noteq> []" "CHR '':'' \<notin> set (Type m)" "TrimSpace (Type m) = Type m"
    and kv: "\<forall>k v. Params m k = Some v \<longrightarrow>
               k \<noteq> [] \<and> TrimSpace k = k \<and> TrimSpace v = v
               \<and> set k \<inter> separators = {} \<and> set v \<inter> separators = {}"
  shows "Parse (Format ks m) = Inr m"
proof -
  let ?f = "\<lambda>key. key @ CHR ''='' # the (Params m key)"
  let ?P = "Join (map ?f ks) '';''"
  have ks: "set ks = dom (Params m)" using ord by (simp add: rangeOrder_def)
  have each: "\<forall>key \<in> set ks. key \<noteq> [] \<and> CHR ''='' \<notin> set key \<and> TrimSpace key = key
             \<and> TrimSpace (the (Params m key)) = the (Params m key)"
    using kv ks by (fastforce simp: separators_def)
  have nosemi: "\<forall>x \<in> set (map ?f ks). CHR '';'' \<notin> set x"
    using kv ks by (fastforce simp: separators_def)
  have fmt: "Format ks m = Type m @ CHR '':'' # ?P" by (simp add: Format_def)
  have "TrimLeftSpace (Format ks m) = Type m @ CHR '':'' # ?P"
    unfolding fmt using TrimSpace_fixedD(1) [OF ty(3)] by (simp add: TrimLeftSpace_sep)
  moreover have "TrimRightSpace (Type m @ CHR '':'' # ?P) = Type m @ CHR '':'' # ?P"
    using each by (simp add: TrimRightSpace_sep TrimRightSpace_params)
  ultimately have trim: "TrimSpace (Format ks m) = Type m @ CHR '':'' # ?P"
    by (simp add: TrimSpace_def)
  have parts: "SplitN2 (Type m @ CHR '':'' # ?P) (CHR '':'') = [Type m, ?P]"
    using ty(2) by (simp add: SplitN2_append)
  have step: "Parse (Format ks m) =
      (if ?P \<noteq> [] then
         (case parsePairs (Split ?P (CHR '';'')) Map.empty of
            Inl e \<Rightarrow> Inl e
          | Inr params \<Rightarrow> Inr \<lparr>Type = Type m, Params = params\<rparr>)
       else Inr \<lparr>Type = Type m, Params = Map.empty\<rparr>)"
    using ty by (simp add: Parse_def trim parts)
  show ?thesis
  proof (cases "ks = []")
    case True
    then have "dom (Params m) = {}" using ks by simp
    then have "Params m = Map.empty" by (simp only: dom_eq_empty_conv)
    moreover have "?P = []" using True by simp
    ultimately show ?thesis unfolding step by simp
  next
    case False
    then have ne: "?P \<noteq> []" using each by (cases ks rule: rev_cases) (auto simp: Join_snoc)
    have sp: "Split ?P (CHR '';'') = map ?f ks"
      using False nosemi Split_Join [of "map ?f ks" "CHR '';''"] by simp
    have "parsePairs (map ?f ks) Map.empty = Inr (Map.empty ++ (Params m |` set ks))"
      using each ks by (intro parsePairs_formatted) auto
    also have "Map.empty ++ (Params m |` set ks) = Params m"
      unfolding ks by (rule ext) (simp add: restrict_map_def domIff)
    finally show ?thesis
      unfolding step using ne by (simp add: sp)
  qed
qed

theorem Parse_Format_roundtrip_witness:
  "Parse (Format [''room'', ''name'']
      \<lparr>Type = ''CONTEXT'', Params = [''name'' \<mapsto> ''alice'', ''room'' \<mapsto> ''42'']\<rparr>)
   = Inr \<lparr>Type = ''CONTEXT'', Params = [''name'' \<mapsto> ''alice'', ''room'' \<mapsto> ''42'']\<rparr>"
proof (rule Parse_Format_roundtrip)
  let ?m = "\<lparr>Type = ''CONTEXT'', Params = [''name'' \<mapsto> ''alice'', ''room'' \<mapsto> ''42'']\<rparr>"
  show "rangeOrder (Params ?m) [''room'', ''name'']"
    by (auto simp: rangeOrder_def)
  show "Type ?m \<noteq> []" by simp
  show "CHR '':'' \<notin> set (Type ?m)" by simp
  show "TrimSpace (Type ?m) = Type ?m" by (simp add: parse_eval)
  have "TrimSpace ''name'' = ''name''" "TrimSpace ''alice'' = ''alice''"
    "TrimSpace ''room'' = ''room''" "TrimSpace ''42'' = ''42''"
    by (simp_all add: parse_eval)
  then show "\<forall>k v. Params ?m k = Some v \<longrightarrow>
               k \<noteq> [] \<and> TrimSpace k = k \<and> TrimSpace v = v
               \<and> set k \<inter> separators = {} \<and> set v \<inter> separators = {}"
    by (auto simp: separators_def split: if_splits)
qed

text \<open>
  As the specification states it, the law asks only for a type tag that is not empty and
  for keys and values without the three separators. It fails for a value with a leading
  space (Parse trims it), for an empty key (Parse rejects it), and for a type tag that
  holds a \<open>:\<close> (Parse splits at it) or starts with a space (Parse trims it).
\<close>

theorem Parse_Format_roundtrip_counterexample:
  "Format [''k''] \<lparr>Type = ''PING'', Params = [''k'' \<mapsto> '' v'']\<rparr> = ''PING:k= v''
   \<and> Parse ''PING:k= v'' = Inr \<lparr>Type = ''PING'', Params = [''k'' \<mapsto> ''v'']\<rparr>
   \<and> [''k'' \<mapsto> ''v''] ''k'' \<noteq> [''k'' \<mapsto> '' v''] ''k''
   \<and> set ''k'' \<inter> separators = {} \<and> set '' v'' \<inter> separators = {}
   \<and> Format [[]] \<lparr>Type = ''PING'', Params = [[] \<mapsto> ''v'']\<rparr> = ''PING:=v''
   \<and> Parse ''PING:=v'' = Inl EmptyParameterKey
   \<and> Format [] \<lparr>Type = ''A:B'', Params = Map.empty\<rparr> = ''A:B:''
   \<and> Parse ''A:B:'' = Inl (InvalidParameterFormat ''B:'')
   \<and> Format [] \<lparr>Type = '' A'', Params = Map.empty\<rparr> = '' A:''
   \<and> Parse '' A:'' = Inr \<lparr>Type = ''A'', Params = Map.empty\<rparr>"
  by (simp add: parse_eval Format_def separators_def)

section \<open>The store\<close>

lemma Get_Set_same: "Get (Set s clientID key value) clientID key = (value, True)"
  by (simp add: Get_def Set_def Let_def)

lemma Get_Clear: "Get (Clear s clientID) clientID key = ([], False)"
  by (simp add: Get_def Clear_def)

lemma Get_Set_other_key:
  "key' \<noteq> key \<Longrightarrow> Get (Set s clientID key value) clientID key' = Get s clientID key'"
  by (simp add: Get_def Set_def Let_def clientOrNew_def split: option.splits)

lemma contexts_Set_other:
  "other \<noteq> clientID \<Longrightarrow> contexts (Set s clientID key value) other = contexts s other"
  by (simp add: Set_def Let_def)

text \<open>
  C5. For every store, client, key and value: \<open>Set\<close> and then \<open>Get\<close> of the same client
  and key returns the value and \<open>true\<close>; \<open>Clear\<close> and then \<open>Get\<close> of that client returns the
  empty string and \<open>false\<close> for every key; and \<open>Get\<close> returns the empty string and \<open>false\<close>
  whenever the store has no context for the client or the context has no such key.
\<close>

theorem Store_get_set_clear:
  "Get (Set s clientID key value) clientID key = (value, True)
   \<and> Get (Clear s clientID) clientID key' = ([], False)
   \<and> (contexts s clientID = None \<longrightarrow> Get s clientID key = ([], False))
   \<and> (\<forall>client. contexts s clientID = Some client \<and> Values client key = None
          \<longrightarrow> Get s clientID key = ([], False))"
  by (simp add: Get_Set_same Get_Clear) (auto simp: Get_def)

theorem Store_get_set_clear_witness:
  "Get (Set NewContextStore ''A'' ''x'' ''1'') ''A'' ''x'' = (''1'', True)
   \<and> Get (Clear (Set NewContextStore ''A'' ''x'' ''1'') ''A'') ''A'' ''x'' = ([], False)
   \<and> contexts NewContextStore ''A'' = None
   \<and> Get NewContextStore ''A'' ''x'' = ([], False)
   \<and> contexts (Set NewContextStore ''A'' ''x'' ''1'') ''A'' = Some \<lparr>Values = [''x'' \<mapsto> ''1'']\<rparr>
   \<and> Get (Set NewContextStore ''A'' ''x'' ''1'') ''A'' ''y'' = ([], False)"
  using Store_get_set_clear [of NewContextStore "''A''" "''x''" "''1''" "''x''"]
    Store_get_set_clear [of "Set NewContextStore ''A'' ''x'' ''1''" "''A''" "''y''" "''1''" "''x''"]
  by (simp add: NewContextStore_def Set_def clientOrNew_def)

lemma queryLoop_filter:
  "queryLoop s key value ids matches = matches @ filter (matchesClient s key value) ids"
  by (induction ids arbitrary: matches) auto

text \<open>
  C6. For every store, key and value, and whatever order the iteration over the clients
  takes, \<open>QueryClients\<close> returns exactly the clients whose context maps the key to the
  value, each of them once.
\<close>

theorem QueryClients_exact:
  assumes "rangeOrder (contexts s) ids"
  shows "set (QueryClients ids s key value)
           = {clientID. \<exists>ctx. contexts s clientID = Some ctx \<and> Values ctx key = Some value}
         \<and> distinct (QueryClients ids s key value)"
proof -
  have q: "QueryClients ids s key value = filter (matchesClient s key value) ids"
    by (simp add: QueryClients_def queryLoop_filter)
  have ids: "distinct ids" "set ids = dom (contexts s)"
    using assms by (simp_all add: rangeOrder_def)
  have "{clientID \<in> dom (contexts s). matchesClient s key value clientID}
        = {clientID. \<exists>ctx. contexts s clientID = Some ctx \<and> Values ctx key = Some value}"
    by (auto simp: matchesClient_def split: option.splits)
  then show ?thesis using ids by (simp add: q)
qed

theorem QueryClients_exact_witness:
  "rangeOrder (contexts \<lparr>contexts = [''A'' \<mapsto> \<lparr>Values = [''x'' \<mapsto> ''1'']\<rparr>,
        ''B'' \<mapsto> \<lparr>Values = [''x'' \<mapsto> ''1'']\<rparr>, ''C'' \<mapsto> \<lparr>Values = [''x'' \<mapsto> ''2'']\<rparr>]\<rparr>) [''C'', ''A'', ''B'']
   \<and> QueryClients [''C'', ''A'', ''B'']
        \<lparr>contexts = [''A'' \<mapsto> \<lparr>Values = [''x'' \<mapsto> ''1'']\<rparr>,
        ''B'' \<mapsto> \<lparr>Values = [''x'' \<mapsto> ''1'']\<rparr>, ''C'' \<mapsto> \<lparr>Values = [''x'' \<mapsto> ''2'']\<rparr>]\<rparr> ''x'' ''1''
      = [''A'', ''B'']
   \<and> {clientID. \<exists>ctx. contexts \<lparr>contexts = [''A'' \<mapsto> \<lparr>Values = [''x'' \<mapsto> ''1'']\<rparr>,
        ''B'' \<mapsto> \<lparr>Values = [''x'' \<mapsto> ''1'']\<rparr>, ''C'' \<mapsto> \<lparr>Values = [''x'' \<mapsto> ''2'']\<rparr>]\<rparr> clientID = Some ctx
          \<and> Values ctx ''x'' = Some ''1''} = {''A'', ''B''}"
proof -
  let ?s = "\<lparr>contexts = [''A'' \<mapsto> \<lparr>Values = [''x'' \<mapsto> ''1'']\<rparr>,
        ''B'' \<mapsto> \<lparr>Values = [''x'' \<mapsto> ''1'']\<rparr>, ''C'' \<mapsto> \<lparr>Values = [''x'' \<mapsto> ''2'']\<rparr>]\<rparr>"
  have r: "rangeOrder (contexts ?s) [''C'', ''A'', ''B'']"
    by (auto simp: rangeOrder_def)
  have q: "QueryClients [''C'', ''A'', ''B''] ?s ''x'' ''1'' = [''A'', ''B'']"
    by (simp add: QueryClients_def matchesClient_def)
  from QueryClients_exact [OF r, of "''x''" "''1''"] r q show ?thesis by simp
qed

text \<open>
  C10. \<open>Set\<close>, \<open>SetMultiple\<close>, \<open>Remove\<close> and \<open>Clear\<close> on one client leave the context of
  every other client as it was, and \<open>Set\<close> and \<open>Remove\<close> of one key leave what \<open>Get\<close>
  returns for every other key of the same client as it was.
\<close>

theorem Store_isolation:
  "(other \<noteq> clientID \<longrightarrow>
      contexts (Set s clientID key value) other = contexts s other
      \<and> contexts (SetMultiple ks s clientID values) other = contexts s other
      \<and> contexts (Remove s clientID key) other = contexts s other
      \<and> contexts (Clear s clientID) other = contexts s other)
   \<and> (key' \<noteq> key \<longrightarrow>
      Get (Set s clientID key value) clientID key' = Get s clientID key'
      \<and> Get (Remove s clientID key) clientID key' = Get s clientID key')"
proof -
  have "key' \<noteq> key \<Longrightarrow> Get (Remove s clientID key) clientID key' = Get s clientID key'"
    by (simp add: Get_def Remove_def split: option.splits)
  moreover have "other \<noteq> clientID \<Longrightarrow> contexts (Remove s clientID key) other = contexts s other"
    by (simp add: Remove_def split: option.splits)
  moreover have "other \<noteq> clientID \<Longrightarrow> contexts (SetMultiple ks s clientID values) other = contexts s other"
    by (simp add: SetMultiple_def Let_def)
  moreover have "other \<noteq> clientID \<Longrightarrow> contexts (Clear s clientID) other = contexts s other"
    by (simp add: Clear_def)
  ultimately show ?thesis
    by (simp add: Get_Set_other_key contexts_Set_other)
qed

theorem Store_isolation_witness:
  "contexts (Set \<lparr>contexts = [''A'' \<mapsto> \<lparr>Values = [''x'' \<mapsto> ''1'', ''y'' \<mapsto> ''2'']\<rparr>,
        ''B'' \<mapsto> \<lparr>Values = [''x'' \<mapsto> ''1'']\<rparr>]\<rparr> ''A'' ''x'' ''9'') ''B''
     = Some \<lparr>Values = [''x'' \<mapsto> ''1'']\<rparr>
   \<and> contexts (Clear \<lparr>contexts = [''A'' \<mapsto> \<lparr>Values = [''x'' \<mapsto> ''1'', ''y'' \<mapsto> ''2'']\<rparr>,
        ''B'' \<mapsto> \<lparr>Values = [''x'' \<mapsto> ''1'']\<rparr>]\<rparr> ''A'') ''B''
     = Some \<lparr>Values = [''x'' \<mapsto> ''1'']\<rparr>
   \<and> Get (Remove \<lparr>contexts = [''A'' \<mapsto> \<lparr>Values = [''x'' \<mapsto> ''1'', ''y'' \<mapsto> ''2'']\<rparr>,
        ''B'' \<mapsto> \<lparr>Values = [''x'' \<mapsto> ''1'']\<rparr>]\<rparr> ''A'' ''x'') ''A'' ''y'' = (''2'', True)
   \<and> Get (Set \<lparr>contexts = [''A'' \<mapsto> \<lparr>Values = [''x'' \<mapsto> ''1'', ''y'' \<mapsto> ''2'']\<rparr>,
        ''B'' \<mapsto> \<lparr>Values = [''x'' \<mapsto> ''1'']\<rparr>]\<rparr> ''A'' ''x'' ''9'') ''A'' ''y'' = (''2'', True)"
proof -
  let ?s = "\<lparr>contexts = [''A'' \<mapsto> \<lparr>Values = [''x'' \<mapsto> ''1'', ''y'' \<mapsto> ''2'']\<rparr>,
        ''B'' \<mapsto> \<lparr>Values = [''x'' \<mapsto> ''1'']\<rparr>]\<rparr>"
  have ne: "''B'' \<noteq> ''A''" "''y'' \<noteq> ''x''" by simp_all
  have g: "Get ?s ''A'' ''y'' = (''2'', True)" by (simp add: Get_def)
  have b: "contexts ?s ''B'' = Some \<lparr>Values = [''x'' \<mapsto> ''1'']\<rparr>" by simp
  from Store_isolation [of "''B''" "''A''" ?s "''x''" "''9''" "[''x'']" "[''x'' \<mapsto> ''9'']" "''y''"]
  show ?thesis unfolding g b using ne by blast
qed

section \<open>Dispatch of a parsed message\<close>

lemma storeEach_other:
  "other \<noteq> cid \<Longrightarrow> contexts (storeEach ks msg cid s) other = contexts s other"
  by (induction ks arbitrary: s) (simp_all add: contexts_Set_other)

lemma storeEach_Get:
  "set ks \<subseteq> dom (Params msg) \<Longrightarrow>
   Get (storeEach ks msg cid s) cid key
     = (if key \<in> set ks then (the (Params msg key), True) else Get s cid key)"
proof (induction ks arbitrary: s)
  case Nil
  then show ?case by simp
next
  case (Cons k ks)
  then have "Get (storeEach ks msg cid (Set s cid k (the (Params msg k)))) cid key
      = (if key \<in> set ks then (the (Params msg key), True)
         else Get (Set s cid k (the (Params msg k))) cid key)"
    by simp
  then show ?case
    by (cases "key = k") (simp_all add: Get_Set_same Get_Set_other_key)
qed

lemma storeEach_fold:
  "storeEach ks msg cid s = fold (\<lambda>key s. Set s cid key (the (Params msg key))) ks s"
  by (induction ks arbitrary: s) simp_all

text \<open>
  C4. A message of type PING makes the handler write one line, \<open>PONG:time=\<close> followed by
  the server's Unix time in decimal digits, and leaves the store as it was. A message of
  type CONTEXT makes the handler call \<open>Set\<close> with the connection's identifier for each key
  of the message and its value, once each, and then write the one line \<open>ACK:status=ok\<close>;
  afterwards \<open>Get\<close> returns the message's value for each of its keys, and what it returned
  before for any other key; the contexts of other clients are as they were. A message of
  any other type changes nothing: nothing is written.
\<close>

theorem handleMessage_dispatch:
  "(Type msg = ''PING'' \<longrightarrow>
      conn (handleMessage now ks c msg) = conn c @ [''PONG:time='' @ FormatInt now @ [CHR 0x0A]]
      \<and> store (handleMessage now ks c msg) = store c)
   \<and> (Type msg = ''CONTEXT'' \<and> rangeOrder (Params msg) ks \<longrightarrow>
      conn (handleMessage now ks c msg) = conn c @ [''ACK:status=ok'' @ [CHR 0x0A]]
      \<and> store (handleMessage now ks c msg)
          = fold (\<lambda>key s. Set s (connID c) key (the (Params msg key))) ks (store c)
      \<and> (\<forall>key. Get (store (handleMessage now ks c msg)) (connID c) key
            = (case Params msg key of
                 None \<Rightarrow> Get (store c) (connID c) key
               | Some v \<Rightarrow> (v, True)))
      \<and> (\<forall>other. other \<noteq> connID c \<longrightarrow>
            contexts (store (handleMessage now ks c msg)) other = contexts (store c) other))
   \<and> (Type msg \<noteq> ''PING'' \<and> Type msg \<noteq> ''CONTEXT'' \<longrightarrow> handleMessage now ks c msg = c)"
proof (intro conjI impI)
  assume "Type msg = ''PING''"
  then show "conn (handleMessage now ks c msg) = conn c @ [''PONG:time='' @ FormatInt now @ [CHR 0x0A]]"
    by (simp add: handleMessage_def handlePing_def Send_def Format_def NewMessage_def
        TypePing_def TypePong_def)
next
  assume "Type msg = ''PING''"
  then show "store (handleMessage now ks c msg) = store c"
    by (simp add: handleMessage_def handlePing_def Send_def TypePing_def)
next
  assume h: "Type msg = ''CONTEXT'' \<and> rangeOrder (Params msg) ks"
  then have hm: "handleMessage now ks c msg = handleContextUpdate ks c msg"
    by (simp add: handleMessage_def TypePing_def TypeContext_def)
  have st: "store (handleContextUpdate ks c msg) = storeEach ks msg (connID c) (store c)"
    by (simp add: handleContextUpdate_def Send_def)
  have ks: "set ks = dom (Params msg)" using h by (simp add: rangeOrder_def)
  show "conn (handleMessage now ks c msg) = conn c @ [''ACK:status=ok'' @ [CHR 0x0A]]"
    unfolding hm
    by (simp add: handleContextUpdate_def Send_def Format_def NewMessage_def TypeAck_def)
  show "store (handleMessage now ks c msg)
          = fold (\<lambda>key s. Set s (connID c) key (the (Params msg key))) ks (store c)"
    unfolding hm st by (rule storeEach_fold)
  show "\<forall>key. Get (store (handleMessage now ks c msg)) (connID c) key
            = (case Params msg key of
                 None \<Rightarrow> Get (store c) (connID c) key
               | Some v \<Rightarrow> (v, True))"
    unfolding hm st using ks by (auto simp: storeEach_Get split: option.splits)
  show "\<forall>other. other \<noteq> connID c \<longrightarrow>
            contexts (store (handleMessage now ks c msg)) other = contexts (store c) other"
    unfolding hm st by (simp add: storeEach_other)
next
  assume "Type msg \<noteq> ''PING'' \<and> Type msg \<noteq> ''CONTEXT''"
  then show "handleMessage now ks c msg = c"
    by (simp add: handleMessage_def TypePing_def TypeContext_def)
qed

lemma FormatInt_example: "FormatInt 1700000000 = ''1700000000''"
  by (simp add: FormatInt_def digits.simps)

theorem handleMessage_dispatch_witness:
  "conn (handleMessage 1700000000 []
      \<lparr>connID = ''c1'', conn = [], store = NewContextStore\<rparr>
      \<lparr>Type = ''PING'', Params = Map.empty\<rparr>) = [''PONG:time=1700000000'' @ [CHR 0x0A]]
   \<and> rangeOrder [''name'' \<mapsto> ''alice'', ''room'' \<mapsto> ''42''] [''room'', ''name'']
   \<and> conn (handleMessage 1700000000 [''room'', ''name'']
      \<lparr>connID = ''c1'', conn = [], store = NewContextStore\<rparr>
      \<lparr>Type = ''CONTEXT'', Params = [''name'' \<mapsto> ''alice'', ''room'' \<mapsto> ''42'']\<rparr>)
       = [''ACK:status=ok'' @ [CHR 0x0A]]
   \<and> Get (store (handleMessage 1700000000 [''room'', ''name'']
      \<lparr>connID = ''c1'', conn = [], store = NewContextStore\<rparr>
      \<lparr>Type = ''CONTEXT'', Params = [''name'' \<mapsto> ''alice'', ''room'' \<mapsto> ''42'']\<rparr>)) ''c1'' ''room''
       = (''42'', True)
   \<and> handleMessage 1700000000 []
      \<lparr>connID = ''c1'', conn = [], store = NewContextStore\<rparr>
      \<lparr>Type = ''PONG'', Params = Map.empty\<rparr> = \<lparr>connID = ''c1'', conn = [], store = NewContextStore\<rparr>"
proof -
  let ?c = "\<lparr>connID = ''c1'', conn = [], store = NewContextStore\<rparr>"
  let ?ctx = "\<lparr>Type = ''CONTEXT'', Params = [''name'' \<mapsto> ''alice'', ''room'' \<mapsto> ''42'']\<rparr>"
  have r: "rangeOrder [''name'' \<mapsto> ''alice'', ''room'' \<mapsto> ''42''] [''room'', ''name'']"
    by (auto simp: rangeOrder_def)
  have ne: "''PONG'' \<noteq> ''PING''" "''PONG'' \<noteq> ''CONTEXT''" by simp_all
  have p1: "Type \<lparr>Type = ''PING'', Params = Map.empty\<rparr> = ''PING''" by simp
  have p2: "Type ?ctx = ''CONTEXT'' \<and> rangeOrder (Params ?ctx) [''room'', ''name'']"
    using r by simp
  have p3: "Type \<lparr>Type = ''PONG'', Params = Map.empty\<rparr> \<noteq> ''PING''
      \<and> Type \<lparr>Type = ''PONG'', Params = Map.empty\<rparr> \<noteq> ''CONTEXT''" by simp
  note ping = handleMessage_dispatch
    [of "\<lparr>Type = ''PING'', Params = Map.empty\<rparr>" 1700000000 "[]" ?c,
      THEN conjunct1, THEN mp, OF p1, THEN conjunct1]
  note ctx = handleMessage_dispatch
    [of ?ctx 1700000000 "[''room'', ''name'']" ?c, THEN conjunct2, THEN conjunct1, THEN mp, OF p2]
  note ack = ctx [THEN conjunct1]
  note get = ctx [THEN conjunct2, THEN conjunct2, THEN conjunct1, THEN spec, of "''room''"]
  note other = handleMessage_dispatch
    [of "\<lparr>Type = ''PONG'', Params = Map.empty\<rparr>" 1700000000 "[]" ?c,
      THEN conjunct2, THEN conjunct2, THEN mp, OF p3]
  have cid: "connID ?c = ''c1''" by simp
  show ?thesis
    unfolding ping ack get [unfolded cid] other using r by (simp add: FormatInt_example)
qed

section \<open>What Parse accepts and what it stores\<close>

lemma SplitN2_cases:
  "SplitN2 s sep = (if sep \<in> set s
      then [takeWhile (\<lambda>c. c \<noteq> sep) s, tl (dropWhile (\<lambda>c. c \<noteq> sep) s)] else [s])"
  by (simp add: SplitN2_def Cut_def)

lemma parsePairs_good:
  "\<forall>pair \<in> set ps. \<not> badPair pair \<Longrightarrow>
   parsePairs ps acc = Inr (acc ++ map_of (rev (map parsedPair ps)))"
proof (induction ps arbitrary: acc)
  case Nil
  then show ?case by simp
next
  case (Cons pair ps)
  then have g: "CHR ''='' \<in> set pair" "TrimSpace (keyText pair) \<noteq> []"
    by (simp_all add: badPair_def)
  have "parsePairs (pair # ps) acc
      = parsePairs ps (acc(TrimSpace (keyText pair) \<mapsto> TrimSpace (valueText pair)))"
    using g by (simp add: SplitN2_cases keyText_def valueText_def)
  also have "\<dots> = Inr (acc(TrimSpace (keyText pair) \<mapsto> TrimSpace (valueText pair))
      ++ map_of (rev (map parsedPair ps)))"
    using Cons by simp
  also have "acc(TrimSpace (keyText pair) \<mapsto> TrimSpace (valueText pair))
      ++ map_of (rev (map parsedPair ps))
      = acc ++ map_of (rev (map parsedPair (pair # ps)))"
    by (rule ext) (simp add: map_add_def parsedPair_def split: option.splits)
  finally show ?case .
qed

lemma parsePairs_bad:
  "\<exists>pair \<in> set ps. badPair pair \<Longrightarrow> isl (parsePairs ps acc)"
proof (induction ps arbitrary: acc)
  case Nil
  then show ?case by simp
next
  case (Cons pair ps)
  show ?case
  proof (cases "badPair pair")
    case True
    then show ?thesis
      by (auto simp: badPair_def SplitN2_cases keyText_def)
  next
    case False
    then have g: "CHR ''='' \<in> set pair" "TrimSpace (keyText pair) \<noteq> []"
      by (simp_all add: badPair_def)
    from False Cons.prems have "\<exists>pair \<in> set ps. badPair pair" by simp
    then have "isl (parsePairs ps (acc(TrimSpace (keyText pair) \<mapsto> TrimSpace (valueText pair))))"
      by (rule Cons.IH)
    then show ?thesis
      using g by (simp add: SplitN2_cases keyText_def valueText_def)
  qed
qed

lemma Parse_parts:
  "Parse raw =
     (let r = TrimSpace raw in
      if r = [] then Inl EmptyMessage
      else if CHR '':'' \<notin> set r then Inl MissingTypeSeparator
      else if TrimSpace (typePortion r) = [] then Inl MissingMessageType
      else (case parsePairs (pairTexts r) Map.empty of
              Inl e \<Rightarrow> Inl e
            | Inr params \<Rightarrow> Inr \<lparr>Type = TrimSpace (typePortion r), Params = params\<rparr>))"
  by (simp add: Parse_def Let_def SplitN2_cases typePortion_def paramText_def pairTexts_def
      split: sum.splits)

lemma Parse_fails_iff: "isl (Parse raw) \<longleftrightarrow> malformed raw"
proof (cases "\<exists>pair \<in> set (pairTexts (TrimSpace raw)). badPair pair")
  case True
  then have "isl (parsePairs (pairTexts (TrimSpace raw)) Map.empty)"
    by (rule parsePairs_bad)
  then show ?thesis using True
    by (auto simp: Parse_parts malformed_def malformedLine_def Let_def split: sum.splits)
next
  case False
  then have "parsePairs (pairTexts (TrimSpace raw)) Map.empty
      = Inr (Map.empty ++ map_of (rev (map parsedPair (pairTexts (TrimSpace raw)))))"
    by (intro parsePairs_good) simp
  then show ?thesis using False
    by (simp add: Parse_parts malformed_def malformedLine_def Let_def)
qed

lemma Parse_params:
  assumes "Parse raw = Inr m"
  shows "Params m = map_of (rev (map parsedPair (pairTexts (TrimSpace raw))))"
proof -
  have "\<not> malformed raw" using assms Parse_fails_iff [of raw] by simp
  then have good: "\<forall>pair \<in> set (pairTexts (TrimSpace raw)). \<not> badPair pair"
    and rest: "TrimSpace raw \<noteq> []" "CHR '':'' \<in> set (TrimSpace raw)"
      "TrimSpace (typePortion (TrimSpace raw)) \<noteq> []"
    by (simp_all add: malformed_def malformedLine_def Let_def)
  have "parsePairs (pairTexts (TrimSpace raw)) Map.empty
      = Inr (Map.empty ++ map_of (rev (map parsedPair (pairTexts (TrimSpace raw)))))"
    using good by (rule parsePairs_good)
  then show ?thesis using assms rest
    by (auto simp: Parse_parts Let_def)
qed

text \<open>
  C3 (as amended). Parse returns an error for the empty line, for \<open>NoColonHere\<close>, for
  \<open>TYPE:key\<close> and for \<open>TYPE:=value\<close>, and accepts \<open>TYPE:\<close> with type \<open>TYPE\<close> and no
  parameter. In general Parse fails exactly when the trimmed line is empty, holds no
  \<open>:\<close>, has a type portion that is empty after trimming, or has a parameter text that is
  not empty and holds a pair with no \<open>=\<close> or with a key that is empty after trimming.
\<close>

theorem Parse_error_cases:
  "Parse [] = Inl EmptyMessage
   \<and> Parse ''NoColonHere'' = Inl MissingTypeSeparator
   \<and> Parse ''TYPE:key'' = Inl (InvalidParameterFormat ''key'')
   \<and> Parse ''TYPE:=value'' = Inl EmptyParameterKey
   \<and> Parse ''TYPE:'' = Inr \<lparr>Type = ''TYPE'', Params = Map.empty\<rparr>
   \<and> (\<forall>raw. isl (Parse raw) \<longleftrightarrow> malformed raw)"
proof -
  have "Parse [] = Inl EmptyMessage" by (simp add: parse_eval)
  moreover have "Parse ''NoColonHere'' = Inl MissingTypeSeparator" by (simp add: parse_eval)
  moreover have "Parse ''TYPE:key'' = Inl (InvalidParameterFormat ''key'')" by (simp add: parse_eval)
  moreover have "Parse ''TYPE:=value'' = Inl EmptyParameterKey" by (simp add: parse_eval)
  moreover have "Parse ''TYPE:'' = Inr \<lparr>Type = ''TYPE'', Params = Map.empty\<rparr>"
    by (simp add: parse_eval)
  ultimately show ?thesis using Parse_fails_iff by blast
qed

theorem Parse_error_cases_witness:
  "malformed ''TYPE: =v'' \<and> isl (Parse ''TYPE: =v'')
   \<and> \<not> malformed ''CONTEXT:name=alice;room=42'' \<and> \<not> isl (Parse ''CONTEXT:name=alice;room=42'')"
proof -
  have a: "malformed ''TYPE: =v''" by code_simp
  have b: "\<not> malformed ''CONTEXT:name=alice;room=42''" by code_simp
  from Parse_error_cases a b show ?thesis by blast
qed

text \<open>
  As stated, with a key that is empty before any trimming, the characterisation fails:
  Parse rejects \<open>TYPE: =v\<close>, whose only pair has a \<open>=\<close> and the key text of one space.
\<close>

theorem Parse_error_cases_counterexample:
  "Parse ''TYPE: =v'' = Inl EmptyParameterKey
   \<and> pairTexts (TrimSpace ''TYPE: =v'') = ['' =v'']
   \<and> keyText '' =v'' = '' ''
   \<and> \<not> malformedAsStated ''TYPE: =v''"
proof -
  have "Parse ''TYPE: =v'' = Inl EmptyParameterKey" by (simp add: parse_eval)
  moreover have "pairTexts (TrimSpace ''TYPE: =v'') = ['' =v'']" by code_simp
  moreover have "keyText '' =v'' = '' ''" by code_simp
  moreover have "\<not> malformedAsStated ''TYPE: =v''" by code_simp
  ultimately show ?thesis by blast
qed

text \<open>
  C2 (as amended). For every line that Parse accepts, the value stored for a key is the
  text between the \<open>=\<close> of a pair with that key and the next \<open>;\<close> (or the end of the
  parameter text), with the white space at its two ends removed and nothing else changed.
\<close>

theorem Parse_values_trimmed:
  assumes "Parse raw = Inr m" and "Params m k = Some v"
  shows "\<exists>pair \<in> set (pairTexts (TrimSpace raw)).
           CHR ''='' \<in> set pair \<and> TrimSpace (keyText pair) = k \<and> v = TrimSpace (valueText pair)"
proof -
  have "\<not> malformed raw" using assms(1) Parse_fails_iff [of raw] by simp
  then have good: "\<forall>pair \<in> set (pairTexts (TrimSpace raw)). \<not> badPair pair"
    by (simp add: malformed_def malformedLine_def Let_def)
  have "map_of (rev (map parsedPair (pairTexts (TrimSpace raw)))) k = Some v"
    using assms Parse_params by simp
  then have "(k, v) \<in> set (rev (map parsedPair (pairTexts (TrimSpace raw))))"
    by (rule map_of_SomeD)
  then obtain pair where "pair \<in> set (pairTexts (TrimSpace raw))" "parsedPair pair = (k, v)"
    by auto
  with good show ?thesis by (auto simp: parsedPair_def badPair_def)
qed

theorem Parse_values_trimmed_witness:
  "Parse ''T:k= v ;j=w'' = Inr \<lparr>Type = ''T'', Params = [''k'' \<mapsto> ''v'', ''j'' \<mapsto> ''w'']\<rparr>
   \<and> (\<exists>pair \<in> set (pairTexts (TrimSpace ''T:k= v ;j=w'')).
          CHR ''='' \<in> set pair \<and> TrimSpace (keyText pair) = ''k''
          \<and> ''v'' = TrimSpace (valueText pair))"
proof -
  have p: "Parse ''T:k= v ;j=w'' = Inr \<lparr>Type = ''T'', Params = [''k'' \<mapsto> ''v'', ''j'' \<mapsto> ''w'']\<rparr>"
    by (simp add: parse_eval)
  have "Params \<lparr>Type = ''T'', Params = [''k'' \<mapsto> ''v'', ''j'' \<mapsto> ''w'']\<rparr> ''k'' = Some ''v''"
    by simp
  from Parse_values_trimmed [OF p this] p show ?thesis by blast
qed

text \<open>
  As stated, with the value taken verbatim, the property fails: Parse accepts \<open>T:k= v\<close>,
  the text after the \<open>=\<close> is a space and \<open>v\<close>, and the value stored is \<open>v\<close>.
\<close>

theorem Parse_values_trimmed_counterexample:
  "Parse ''T:k= v'' = Inr \<lparr>Type = ''T'', Params = [''k'' \<mapsto> ''v'']\<rparr>
   \<and> pairTexts (TrimSpace ''T:k= v'') = [''k= v'']
   \<and> valueText ''k= v'' = '' v''
   \<and> '' v'' \<noteq> ''v''"
proof -
  have "Parse ''T:k= v'' = Inr \<lparr>Type = ''T'', Params = [''k'' \<mapsto> ''v'']\<rparr>"
    by (simp add: parse_eval)
  moreover have "pairTexts (TrimSpace ''T:k= v'') = [''k= v'']" by code_simp
  moreover have "valueText ''k= v'' = '' v''" by code_simp
  ultimately show ?thesis by simp
qed

lemma map_of_rev_last:
  assumes "i < length xs"
    and "\<forall>j. i < j \<and> j < length xs \<longrightarrow> fst (xs ! j) \<noteq> fst (xs ! i)"
  shows "map_of (rev xs) (fst (xs ! i)) = Some (snd (xs ! i))"
proof -
  let ?k = "fst (xs ! i)"
  have xs: "xs = take i xs @ xs ! i # drop (Suc i) xs"
    using assms(1) by (rule id_take_nth_drop)
  have "?k \<notin> fst ` set (drop (Suc i) xs)"
  proof
    assume "?k \<in> fst ` set (drop (Suc i) xs)"
    then obtain p where p: "p \<in> set (drop (Suc i) xs)" "fst p = ?k" by auto
    then obtain n where n: "n < length (drop (Suc i) xs)" "drop (Suc i) xs ! n = p"
      by (auto simp: in_set_conv_nth)
    then have "Suc i + n < length xs" "xs ! (Suc i + n) = p" by auto
    with assms(2) p(2) show False by (metis add_Suc less_add_Suc1)
  qed
  then have none: "map_of (rev (drop (Suc i) xs)) ?k = None"
    by (simp add: map_of_eq_None_iff)
  have "rev xs = rev (drop (Suc i) xs) @ (xs ! i # rev (take i xs))"
    by (subst xs) simp
  then have "map_of (rev xs) ?k = (map_of (xs ! i # rev (take i xs)) ++ map_of (rev (drop (Suc i) xs))) ?k"
    by (simp only: map_of_append)
  also have "\<dots> = map_of (xs ! i # rev (take i xs)) ?k"
    using none by (simp add: map_add_def)
  also have "\<dots> = Some (snd (xs ! i))"
    by (cases "xs ! i") simp
  finally show ?thesis .
qed

text \<open>
  C9. A line whose pairs are each well formed is accepted whether or not a key occurs in
  more than one pair, and the Message maps each key to the value of its last pair in the
  line: for the pair at position \<open>i\<close>, when no later pair has the same key after
  trimming, the key (trimmed) is mapped to the value (trimmed) of that pair.
\<close>

theorem Parse_duplicate_keys:
  assumes "\<not> malformed raw"
  shows "\<exists>m. Parse raw = Inr m \<and>
           (\<forall>i < length (pairTexts (TrimSpace raw)).
              (\<forall>j. i < j \<and> j < length (pairTexts (TrimSpace raw)) \<longrightarrow>
                 TrimSpace (keyText (pairTexts (TrimSpace raw) ! j))
                   \<noteq> TrimSpace (keyText (pairTexts (TrimSpace raw) ! i)))
              \<longrightarrow> Params m (TrimSpace (keyText (pairTexts (TrimSpace raw) ! i)))
                    = Some (TrimSpace (valueText (pairTexts (TrimSpace raw) ! i))))"
proof -
  let ?ps = "pairTexts (TrimSpace raw)"
  let ?xs = "map parsedPair ?ps"
  from assms have "\<not> isl (Parse raw)" by (simp add: Parse_fails_iff)
  then obtain m where m: "Parse raw = Inr m" by (cases "Parse raw") auto
  then have pm: "Params m = map_of (rev ?xs)" by (rule Parse_params)
  have "Params m (TrimSpace (keyText (?ps ! i))) = Some (TrimSpace (valueText (?ps ! i)))"
    if i: "i < length ?ps"
      and last: "\<forall>j. i < j \<and> j < length ?ps \<longrightarrow>
         TrimSpace (keyText (?ps ! j)) \<noteq> TrimSpace (keyText (?ps ! i))" for i
  proof -
    have "map_of (rev ?xs) (fst (?xs ! i)) = Some (snd (?xs ! i))"
      using i last by (intro map_of_rev_last) (auto simp: parsedPair_def)
    then show ?thesis using i by (simp add: pm parsedPair_def)
  qed
  with m show ?thesis by blast
qed

theorem Parse_duplicate_keys_witness:
  "\<not> malformed ''CONTEXT:a=1;b=2;a=3''
   \<and> pairTexts (TrimSpace ''CONTEXT:a=1;b=2;a=3'') = [''a=1'', ''b=2'', ''a=3'']
   \<and> (\<exists>m. Parse ''CONTEXT:a=1;b=2;a=3'' = Inr m \<and> Params m ''a'' = Some ''3'')"
proof -
  have a: "\<not> malformed ''CONTEXT:a=1;b=2;a=3''" by code_simp
  have p: "pairTexts (TrimSpace ''CONTEXT:a=1;b=2;a=3'') = [''a=1'', ''b=2'', ''a=3'']"
    by code_simp
  have k: "TrimSpace (keyText ''a=3'') = ''a''" and v: "TrimSpace (valueText ''a=3'') = ''3''"
    by code_simp+
  from Parse_duplicate_keys [OF a] obtain m where m: "Parse ''CONTEXT:a=1;b=2;a=3'' = Inr m"
    and l: "\<forall>i < length (pairTexts (TrimSpace ''CONTEXT:a=1;b=2;a=3'')).
              (\<forall>j. i < j \<and> j < length (pairTexts (TrimSpace ''CONTEXT:a=1;b=2;a=3'')) \<longrightarrow>
                 TrimSpace (keyText (pairTexts (TrimSpace ''CONTEXT:a=1;b=2;a=3'') ! j))
                   \<noteq> TrimSpace (keyText (pairTexts (TrimSpace ''CONTEXT:a=1;b=2;a=3'') ! i)))
              \<longrightarrow> Params m (TrimSpace (keyText (pairTexts (TrimSpace ''CONTEXT:a=1;b=2;a=3'') ! i)))
                    = Some (TrimSpace (valueText (pairTexts (TrimSpace ''CONTEXT:a=1;b=2;a=3'') ! i)))"
    by blast
  have n: "[''a=1'', ''b=2'', ''a=3''] ! 2 = ''a=3''" by simp
  have "\<forall>j. 2 < j \<and> j < length [''a=1'', ''b=2'', ''a=3''] \<longrightarrow>
      TrimSpace (keyText ([''a=1'', ''b=2'', ''a=3''] ! j))
        \<noteq> TrimSpace (keyText ([''a=1'', ''b=2'', ''a=3''] ! 2))"
  proof (intro allI impI)
    fix j :: nat
    assume "2 < j \<and> j < length [''a=1'', ''b=2'', ''a=3'']"
    then have "2 < j" "j < 3" by simp_all
    then have False by linarith
    then show "TrimSpace (keyText ([''a=1'', ''b=2'', ''a=3''] ! j))
        \<noteq> TrimSpace (keyText ([''a=1'', ''b=2'', ''a=3''] ! 2))" ..
  qed
  with l [unfolded p, THEN spec, of 2] have "Params m ''a'' = Some ''3''"
    unfolding n k v by simp
  with a p m show ?thesis by blast
qed

lemma stripAll_subset: "set (stripAll es s) \<subseteq> set s"
proof -
  obtain p where "s = p @ stripAll es s" using stripAll_suffix by blast
  then have "set s = set p \<union> set (stripAll es s)" by (metis set_append)
  then show ?thesis by blast
qed

lemma TrimSpace_TrimLeftSpace: "TrimSpace (TrimLeftSpace t) = TrimSpace t"
  by (simp add: TrimSpace_def TrimLeftSpace_def stripAll_idem)

lemma TrimSpace_line:
  "TrimSpace (t @ CHR '':'' # p) = TrimLeftSpace t @ CHR '':'' # TrimRightSpace p"
  by (simp add: TrimSpace_def TrimLeftSpace_sep TrimRightSpace_sep)

lemma typePortion_line: "CHR '':'' \<notin> set a \<Longrightarrow> typePortion (a @ CHR '':'' # b) = a"
  by (induction a) (auto simp: typePortion_def)

lemma paramText_line: "CHR '':'' \<notin> set a \<Longrightarrow> paramText (a @ CHR '':'' # b) = b"
  by (induction a) (auto simp: paramText_def)

lemma Parse_tagged:
  assumes "CHR '':'' \<notin> set t"
  shows "Parse (t @ CHR '':'' # p) =
     (if TrimSpace t = [] then Inl MissingMessageType
      else (case parsePairs (if TrimRightSpace p = [] then []
                             else Split (TrimRightSpace p) (CHR '';'')) Map.empty of
              Inl e \<Rightarrow> Inl e
            | Inr params \<Rightarrow> Inr \<lparr>Type = TrimSpace t, Params = params\<rparr>))"
proof -
  have n: "CHR '':'' \<notin> set (TrimLeftSpace t)"
    using assms stripAll_subset [of spaceEncodings t] by (auto simp: TrimLeftSpace_def)
  show ?thesis
    unfolding Parse_parts TrimSpace_line Let_def
    by (simp add: typePortion_line [OF n] paramText_line [OF n] pairTexts_def
        TrimSpace_TrimLeftSpace cong: sum.case_cong)
qed

text \<open>
  C7. \<open>ValidateMessageType\<close> holds of the five tags PING, PONG, CONTEXT, ACK and ERROR and
  of nothing else. Parse does not look at the tag: for a tag \<open>t\<close> that holds no \<open>:\<close> and
  is not blank, and any parameter text \<open>p\<close>, the line \<open>t:p\<close> is accepted exactly when the
  line \<open>PING:p\<close> is, with the same error or the same parameters, and with the trimmed tag
  as its type.
\<close>

theorem ValidateMessageType_and_Parse:
  "(ValidateMessageType t \<longleftrightarrow> t \<in> {''PING'', ''PONG'', ''CONTEXT'', ''ACK'', ''ERROR''})
   \<and> (CHR '':'' \<notin> set t \<and> TrimSpace t \<noteq> [] \<longrightarrow>
        Parse (t @ '':'' @ p)
          = (case Parse (''PING:'' @ p) of
               Inl e \<Rightarrow> Inl e
             | Inr m \<Rightarrow> Inr (m\<lparr>Type := TrimSpace t\<rparr>)))"
proof
  show "ValidateMessageType t \<longleftrightarrow> t \<in> {''PING'', ''PONG'', ''CONTEXT'', ''ACK'', ''ERROR''}"
    by (simp add: ValidateMessageType_def TypePing_def TypePong_def TypeContext_def
        TypeAck_def TypeError_def)
next
  have ping: "TrimSpace ''PING'' = ''PING''" by code_simp
  have "Parse (''PING'' @ CHR '':'' # p) =
      (case parsePairs (if TrimRightSpace p = [] then []
                        else Split (TrimRightSpace p) (CHR '';'')) Map.empty of
         Inl e \<Rightarrow> Inl e
       | Inr params \<Rightarrow> Inr \<lparr>Type = ''PING'', Params = params\<rparr>)"
    by (subst Parse_tagged) (simp_all add: ping cong: sum.case_cong)
  then have p: "Parse (''PING:'' @ p) =
      (case parsePairs (if TrimRightSpace p = [] then []
                        else Split (TrimRightSpace p) (CHR '';'')) Map.empty of
         Inl e \<Rightarrow> Inl e
       | Inr params \<Rightarrow> Inr \<lparr>Type = ''PING'', Params = params\<rparr>)"
    by simp
  show "CHR '':'' \<notin> set t \<and> TrimSpace t \<noteq> [] \<longrightarrow>
        Parse (t @ '':'' @ p)
          = (case Parse (''PING:'' @ p) of
               Inl e \<Rightarrow> Inl e
             | Inr m \<Rightarrow> Inr (m\<lparr>Type := TrimSpace t\<rparr>))"
  proof
    assume h: "CHR '':'' \<notin> set t \<and> TrimSpace t \<noteq> []"
    then have "Parse (t @ CHR '':'' # p) =
      (case parsePairs (if TrimRightSpace p = [] then []
                        else Split (TrimRightSpace p) (CHR '';'')) Map.empty of
         Inl e \<Rightarrow> Inl e
       | Inr params \<Rightarrow> Inr \<lparr>Type = TrimSpace t, Params = params\<rparr>)"
      by (simp add: Parse_tagged)
    then show "Parse (t @ '':'' @ p)
          = (case Parse (''PING:'' @ p) of
               Inl e \<Rightarrow> Inl e
             | Inr m \<Rightarrow> Inr (m\<lparr>Type := TrimSpace t\<rparr>))"
      unfolding p by (simp split: sum.splits)
  qed
qed

theorem ValidateMessageType_and_Parse_witness:
  "\<not> ValidateMessageType ''FOO''
   \<and> ValidateMessageType ''ACK''
   \<and> Parse ''PING:a=b'' = Inr \<lparr>Type = ''PING'', Params = [''a'' \<mapsto> ''b'']\<rparr>
   \<and> Parse ''FOO:a=b'' = Inr \<lparr>Type = ''FOO'', Params = [''a'' \<mapsto> ''b'']\<rparr>"
proof -
  have t: "CHR '':'' \<notin> set ''FOO'' \<and> TrimSpace ''FOO'' \<noteq> []"
    by (simp add: parse_eval)
  have f: "TrimSpace ''FOO'' = ''FOO''" by code_simp
  have p: "Parse ''PING:a=b'' = Inr \<lparr>Type = ''PING'', Params = [''a'' \<mapsto> ''b'']\<rparr>"
    by (simp add: parse_eval)
  note foo = ValidateMessageType_and_Parse [of "''FOO''" "''a=b''"]
  note ack = ValidateMessageType_and_Parse [of "''ACK''" "''a=b''", THEN conjunct1]
  have "Parse (''FOO'' @ '':'' @ ''a=b'') = Inr \<lparr>Type = ''FOO'', Params = [''a'' \<mapsto> ''b'']\<rparr>"
    using foo [THEN conjunct2, THEN mp, OF t] p by (simp add: f)
  moreover have "\<not> ValidateMessageType ''FOO''" using foo [THEN conjunct1] by simp
  moreover have "ValidateMessageType ''ACK''" using ack by simp
  ultimately show ?thesis using p by simp
qed

section \<open>SetMultiple among concurrent calls\<close>

lemma ContextStore_eqI:
  fixes a b :: ContextStore
  shows "contexts a = contexts b \<Longrightarrow> a = b"
  by simp

lemma fold_assignValue:
  "contexts s clientID = Some client \<Longrightarrow>
   contexts (fold (\<lambda>f s. f s) (map (\<lambda>k. assignValue clientID k (the (values k))) ks) s)
     = (contexts s)(clientID \<mapsto> client\<lparr>Values := setEach ks values (Values client)\<rparr>)"
proof (induction ks arbitrary: s client)
  case Nil
  then show ?case by (simp add: fun_upd_idem)
next
  case (Cons k ks)
  let ?client = "client\<lparr>Values := (Values client)(k \<mapsto> the (values k))\<rparr>"
  let ?s = "assignValue clientID k (the (values k)) s"
  have a: "contexts ?s = (contexts s)(clientID \<mapsto> ?client)"
    using Cons.prems by (simp add: assignValue_def)
  then have "contexts ?s clientID = Some ?client" by simp
  then have "contexts (fold (\<lambda>f s. f s) (map (\<lambda>k. assignValue clientID k (the (values k))) ks) ?s)
     = (contexts ?s)(clientID \<mapsto> ?client\<lparr>Values := setEach ks values (Values ?client)\<rparr>)"
    by (rule Cons.IH)
  then show ?case by (simp add: a)
qed

lemma ensureClient_contexts:
  "contexts (ensureClient clientID s) = (contexts s)(clientID \<mapsto> clientOrNew s clientID)"
  by (rule ext) (simp add: ensureClient_def clientOrNew_def split: option.splits)

lemma statements_applyCall: "fold (\<lambda>f s. f s) (statements call) s = applyCall call s"
proof (cases call)
  case (CallSet clientID key v)
  have "contexts (assignValue clientID key v (ensureClient clientID s))
      = contexts (Set s clientID key v)"
    by (simp add: assignValue_def ensureClient_contexts Set_def Let_def)
  then have "assignValue clientID key v (ensureClient clientID s) = Set s clientID key v"
    by (rule ContextStore_eqI)
  then show ?thesis using CallSet by simp
next
  case (CallSetMultiple clientID vs ks)
  have "contexts (ensureClient clientID s) clientID = Some (clientOrNew s clientID)"
    by (simp add: ensureClient_contexts)
  then have "contexts (fold (\<lambda>f s. f s) (map (\<lambda>k. assignValue clientID k (the (vs k))) ks)
          (ensureClient clientID s))
        = contexts (SetMultiple ks s clientID vs)"
    by (simp add: fold_assignValue ensureClient_contexts SetMultiple_def Let_def)
  then have "fold (\<lambda>f s. f s) (map (\<lambda>k. assignValue clientID k (the (vs k))) ks)
          (ensureClient clientID s)
        = SetMultiple ks s clientID vs"
    by (rule ContextStore_eqI)
  then show ?thesis using CallSetMultiple by simp
qed simp_all

lemma fold_take_Suc:
  "n < length fs \<Longrightarrow> fold (\<lambda>f s. f s) (take (Suc n) fs) s = (fs ! n) (fold (\<lambda>f s. f s) (take n fs) s)"
  by (simp add: take_Suc_conv_app_nth)

lemma step_lockInvariant:
  assumes "step c c'" and "lockInvariant s0 c"
  shows "lockInvariant s0 c'"
  using assms
proof (induction rule: step.induct)
  case (Call c t call)
  then show ?case
    by (auto simp: lockInvariant_def doCall_def committed_def)
next
  case (Lock c t call)
  then show ?case
    by (auto simp: lockInvariant_def doLock_def committed_def)
next
  case (RLock c t call)
  then show ?case
    by (auto simp: lockInvariant_def doRLock_def committed_def)
next
  case (Statement c t call n)
  have w: "writer c = Some t"
    using Statement by (auto simp: lockInvariant_def)
  have uniq: "t' = t" if "goroutines c t' = Writing call' n'" for t' call' n'
  proof -
    have "writer c = Some t'" using Statement.prems that by (auto simp: lockInvariant_def)
    with w show ?thesis by simp
  qed
  have sh: "shared c = fold (\<lambda>f s. f s) (take n (statements call)) (committed s0 c)"
    using Statement by (auto simp: lockInvariant_def)
  have sh': "(statements call ! n) (shared c)
      = fold (\<lambda>f s. f s) (take (Suc n) (statements call)) (committed s0 c)"
    using Statement.hyps(2) by (simp add: fold_take_Suc sh)
  have c': "committed s0 (doStatement t call n c) = committed s0 c"
    by (simp add: committed_def doStatement_def)
  have g: "goroutines (doStatement t call n c) = (goroutines c)(t := Writing call (Suc n))"
    and wr: "writer (doStatement t call n c) = Some t"
    and rd: "readers (doStatement t call n c) = readers c"
    and s': "shared (doStatement t call n c) = (statements call ! n) (shared c)"
    using w by (simp_all add: doStatement_def)
  have rd0: "readers c = {}"
    using Statement.prems w by (simp add: lockInvariant_def)
  have noread: "goroutines c t' \<noteq> Reading call' seen" for t' call' seen
    using Statement.prems rd0 by (auto simp: lockInvariant_def)
  have 1: "Some t = Some t' \<longleftrightarrow>
      (\<exists>call' n'. ((goroutines c)(t := Writing call (Suc n))) t' = Writing call' n')" for t'
    using uniq by (cases "t' = t") auto
  have 2: "t' \<in> readers c \<longleftrightarrow>
      (\<exists>call' seen. ((goroutines c)(t := Writing call (Suc n))) t' = Reading call' seen)" for t'
    using rd0 noread by (cases "t' = t") auto
  have 4: "n' \<le> length (statements call')
      \<and> fold (\<lambda>f s. f s) (take (Suc n) (statements call)) (committed s0 c)
          = fold (\<lambda>f s. f s) (take n' (statements call')) (committed s0 c)"
    if "((goroutines c)(t := Writing call (Suc n))) t' = Writing call' n'" for t' call' n'
  proof (cases "t' = t")
    case True
    with that have "call' = call" "n' = Suc n" by simp_all
    then show ?thesis using Statement.hyps(2) by simp
  next
    case False
    with that have "goroutines c t' = Writing call' n'" by simp
    with uniq False show ?thesis by blast
  qed
  have 6: "\<forall>s \<in> set seen. s = committed s0 c"
    if "((goroutines c)(t := Writing call (Suc n))) t' = Reading call' seen" for t' call' seen
  proof (cases "t' = t")
    case True
    with that show ?thesis by simp
  next
    case False
    with that noread show ?thesis by simp
  qed
  show ?case
    unfolding lockInvariant_def c' g wr rd s' sh'
    using 1 2 4 6 rd0 by blast
next
  case (Unlock c t call n)
  have w: "writer c = Some t"
    using Unlock by (auto simp: lockInvariant_def)
  have uniq: "t' = t" if "goroutines c t' = Writing call' n'" for t' call' n'
  proof -
    have "writer c = Some t'" using Unlock.prems that by (auto simp: lockInvariant_def)
    with w show ?thesis by simp
  qed
  have rd0: "readers c = {}"
    using Unlock.prems w by (simp add: lockInvariant_def)
  have noread: "goroutines c t' \<noteq> Reading call' seen" for t' call' seen
    using Unlock.prems rd0 by (auto simp: lockInvariant_def)
  have "shared c = fold (\<lambda>f s. f s) (take n (statements call)) (committed s0 c)"
    using Unlock by (auto simp: lockInvariant_def)
  then have sh: "shared c = applyCall call (committed s0 c)"
    using Unlock.hyps(2) by (simp add: statements_applyCall)
  have c': "committed s0 (doUnlock t call c) = applyCall call (committed s0 c)"
    by (simp add: committed_def doUnlock_def)
  have g: "goroutines (doUnlock t call c) = (goroutines c)(t := Idle)"
    and wr: "writer (doUnlock t call c) = None"
    and rd: "readers (doUnlock t call c) = {}"
    and s': "shared (doUnlock t call c) = applyCall call (committed s0 c)"
    using rd0 sh by (simp_all add: doUnlock_def)
  have 1: "((goroutines c)(t := Idle)) t' \<noteq> Writing call' n'" for t' call' n'
    using uniq by (cases "t' = t") auto
  have 2: "((goroutines c)(t := Idle)) t' \<noteq> Reading call' seen" for t' call' seen
    using noread by (cases "t' = t") auto
  show ?case
    unfolding lockInvariant_def c' g wr rd s'
    using 1 2 by simp
next
  case (Read c t call seen)
  then show ?case
    by (auto simp: lockInvariant_def doRead_def committed_def)
next
  case (RUnlock c t call seen)
  then show ?case
    by (auto simp: lockInvariant_def doRUnlock_def committed_def)
qed

lemma reach_lockInvariant: "reach s0 c \<Longrightarrow> lockInvariant s0 c"
proof (induction rule: reach.induct)
  case (Start s0)
  show ?case by (simp add: lockInvariant_def startSystem_def committed_def)
next
  case (Step s0 c c')
  then show ?case by (simp add: step_lockInvariant)
qed

text \<open>
  C8. Goroutines call the methods of the store and run them one statement at a time, in
  any interleaving that the mutex allows; \<open>SetMultiple\<close> writes its pairs one by one.
  Then every state of the store that a reading call (\<open>GetAll\<close>, \<open>Get\<close>, \<open>ListClients\<close>,
  \<open>QueryClients\<close>) has read is the initial store with the writing calls that have returned
  applied in full, in the order of their return, so each \<open>SetMultiple\<close> shows in it with
  all of its pairs or with none; and while a writing call is between its \<open>Lock\<close> and its
  return, every other goroutine is outside the store or waits for the mutex.
\<close>

theorem SetMultiple_atomic:
  assumes "reach s0 c"
  shows "(\<forall>t call seen. goroutines c t = Reading call seen \<longrightarrow>
            (\<forall>s \<in> set seen. s = fold applyCall (finished c) s0))
         \<and> (\<forall>t call n. goroutines c t = Writing call n \<longrightarrow>
            (\<forall>t'. t' \<noteq> t \<longrightarrow>
               goroutines c t' = Idle \<or> (\<exists>call'. goroutines c t' = Blocked call')))"
proof (intro conjI allI impI)
  have inv: "lockInvariant s0 c" using assms by (rule reach_lockInvariant)
  {
    fix t call seen
    assume "goroutines c t = Reading call seen"
    with inv show "\<forall>s \<in> set seen. s = fold applyCall (finished c) s0"
      unfolding lockInvariant_def committed_def by blast
  next
    fix t call n t'
    assume w: "goroutines c t = Writing call n" and ne: "t' \<noteq> t"
    from inv w have wt: "writer c = Some t" by (auto simp: lockInvariant_def)
    with inv have rd: "readers c = {}" by (simp add: lockInvariant_def)
    show "goroutines c t' = Idle \<or> (\<exists>call'. goroutines c t' = Blocked call')"
    proof (cases "goroutines c t'")
      case Idle
      then show ?thesis by simp
    next
      case (Blocked call')
      then show ?thesis by simp
    next
      case (Writing call' n')
      with inv have "writer c = Some t'" by (auto simp: lockInvariant_def)
      with wt ne show ?thesis by simp
    next
      case (Reading call' seen)
      with inv have "t' \<in> readers c" by (auto simp: lockInvariant_def)
      with rd show ?thesis by simp
    qed
  }
qed

lemmas run_defs = doCall_def doLock_def doRLock_def doStatement_def doUnlock_def doRead_def
  startSystem_def exampleCall_def

theorem SetMultiple_atomic_witness:
  "reach NewContextStore exampleRun
   \<and> goroutines exampleRun 1
       = Reading (CallGetAll ''A'')
           [\<lparr>contexts = [''A'' \<mapsto> \<lparr>Values = [''x'' \<mapsto> ''1'', ''y'' \<mapsto> ''2'']\<rparr>]\<rparr>]
   \<and> fold applyCall (finished exampleRun) NewContextStore
       = \<lparr>contexts = [''A'' \<mapsto> \<lparr>Values = [''x'' \<mapsto> ''1'', ''y'' \<mapsto> ''2'']\<rparr>]\<rparr>"
proof -
  let ?g = "CallGetAll ''A''"
  let ?c1 = "doCall 0 exampleCall (startSystem NewContextStore)"
  let ?c2 = "doCall 1 ?g ?c1"
  let ?c3 = "doLock 0 exampleCall ?c2"
  let ?c4 = "doStatement 0 exampleCall 0 ?c3"
  let ?c5 = "doStatement 0 exampleCall 1 ?c4"
  let ?c6 = "doStatement 0 exampleCall 2 ?c5"
  let ?c7 = "doUnlock 0 exampleCall ?c6"
  let ?c8 = "doRLock 1 ?g ?c7"
  have v: "validCall exampleCall" by (auto simp: exampleCall_def rangeOrder_def)
  have l: "length (statements exampleCall) = 3" by (simp add: exampleCall_def)
  have w: "takesLock exampleCall" by (simp add: exampleCall_def)
  have r0: "reach NewContextStore (startSystem NewContextStore)" by (rule reach.Start)
  have r1: "reach NewContextStore ?c1"
    by (rule reach.Step [OF r0]) (rule step.Call, simp_all add: startSystem_def v)
  have r2: "reach NewContextStore ?c2"
    by (rule reach.Step [OF r1]) (rule step.Call, simp_all add: run_defs)
  have r3: "reach NewContextStore ?c3"
    by (rule reach.Step [OF r2]) (rule step.Lock, simp_all add: w, simp_all add: run_defs)
  have r4: "reach NewContextStore ?c4"
    by (rule reach.Step [OF r3]) (rule step.Statement, simp_all add: l, simp add: run_defs)
  have r5: "reach NewContextStore ?c5"
    by (rule reach.Step [OF r4]) (rule step.Statement, simp_all add: l, simp add: run_defs)
  have r6: "reach NewContextStore ?c6"
    by (rule reach.Step [OF r5]) (rule step.Statement, simp_all add: l, simp add: run_defs)
  have r7: "reach NewContextStore ?c7"
    by (rule reach.Step [OF r6]) (rule step.Unlock [where n = 3], simp_all add: l, simp add: run_defs)
  have r8: "reach NewContextStore ?c8"
    by (rule reach.Step [OF r7]) (rule step.RLock, simp_all add: run_defs)
  have r9: "reach NewContextStore exampleRun"
    unfolding exampleRun_def
    by (rule reach.Step [OF r8]) (rule step.Read [where seen = "[]"], simp add: run_defs)
  have f: "finished exampleRun = [exampleCall]"
    by (simp add: exampleRun_def run_defs)
  have a: "fold applyCall (finished exampleRun) NewContextStore
      = \<lparr>contexts = [''A'' \<mapsto> \<lparr>Values = [''x'' \<mapsto> ''1'', ''y'' \<mapsto> ''2'']\<rparr>]\<rparr>"
    unfolding f
    by (simp add: exampleCall_def SetMultiple_def clientOrNew_def NewContextStore_def)
  obtain seen where g: "goroutines exampleRun 1 = Reading ?g seen" and n: "length seen = 1"
    by (simp add: exampleRun_def run_defs)
  from SetMultiple_atomic [OF r9] g have "\<forall>s \<in> set seen. s = fold applyCall (finished exampleRun) NewContextStore"
    by blast
  with n have "seen = [fold applyCall (finished exampleRun) NewContextStore]"
    by (cases seen) auto
  with g a r9 show ?thesis by simp
qed

end
